theory Spec2Isabelle
  imports Main
begin

section \<open>Identifiers and errors\<close>

text \<open>
  Go strings are byte sequences; they are modelled as \<^typ>\<open>string\<close>. The pass normalises
  identifiers with \<^verbatim>\<open>strings.ToLower\<close>. The model lowers the ASCII letters A to Z and
  leaves every other byte as it is. For the letters A to Z (codes 65 to 90) adding 32 to
  the code sets the bit of weight 32, which is clear in all of them.
\<close>

fun toLowerChar :: "char \<Rightarrow> char" where
  "toLowerChar (Char b0 b1 b2 b3 b4 b5 b6 b7) =
     (let n = (of_char (Char b0 b1 b2 b3 b4 b5 b6 b7) :: nat)
      in if 65 \<le> n \<and> n \<le> 90 then Char b0 b1 b2 b3 b4 True b6 b7
         else Char b0 b1 b2 b3 b4 b5 b6 b7)"

definition ToLower :: "string \<Rightarrow> string" where
  "ToLower s = map toLowerChar s"

text \<open>
  The errors the pass can return: the two it constructs itself
  (\<^verbatim>\<open>sql.ErrTableNotFound\<close>, \<^verbatim>\<open>sql.ErrTruncateReferencedFromForeignKey\<close>), and the
  errors handed back by the collaborators (catalog, trigger source, \<^verbatim>\<open>plan.GetTruncatable\<close>),
  which the pass never inspects.
\<close>

datatype error =
    ErrTableNotFound string
  | ErrTruncateReferencedFromForeignKey string string string
  | CollaboratorError string

section \<open>Data model\<close>

record Column =
  ColumnName :: string
  AutoIncrement :: bool

record ForeignKeyConstraint =
  FkName :: string
  ReferencedTable :: string

text \<open>
  A table has a name and a schema. \<open>ForeignKeys\<close> is \<open>None\<close> when the table does not
  implement \<^verbatim>\<open>sql.ForeignKeyTable\<close>; otherwise it holds what \<^verbatim>\<open>GetForeignKeys\<close> returns.
\<close>

record Table =
  TableName :: string
  Schema :: "Column list"
  ForeignKeys :: "(error + ForeignKeyConstraint list) option"

datatype Node =
    DeleteFrom Node
  | Truncate string Node
  | ResolvedTable Table
  | UnresolvedTable string string
  | OtherNode string

record Trigger =
  TriggerEvent :: string
  TriggerTable :: Node

text \<open>
  A database of the catalog: \<^verbatim>\<open>Name()\<close>, \<^verbatim>\<open>GetTableNames(ctx)\<close> and
  \<^verbatim>\<open>GetTableInsensitive(ctx, name)\<close>; the last returns the table and the found flag
  (here an option) or an error.
\<close>

record Database =
  DbName :: string
  GetTableNames :: "error + string list"
  GetTableInsensitive :: "string \<Rightarrow> error + Table option"

text \<open>
  What the pass reads from its context and analyzer. \<^verbatim>\<open>loadTriggersFromDb\<close> (package
  analyzer) and \<^verbatim>\<open>plan.GetTruncatable\<close> are functions of the repository defined outside
  the two files modelled here, so they are parameters; \<open>GetTruncatable\<close> returns the
  name of the truncatable table (the only thing the pass reads from it) or an error.
\<close>

record Env =
  AllDatabases :: "Database list"
  GetCurrentDatabase :: string
  loadTriggersFromDb :: "Database \<Rightarrow> error + Trigger list"
  GetTruncatable :: "Node \<Rightarrow> error + string"

text \<open>The constant \<^verbatim>\<open>sqlparser.DeleteStr\<close> of the parser library.\<close>

definition DeleteStr :: string where
  "DeleteStr = ''delete''"

section \<open>validateTruncate\<close>

text \<open>
  The result \<^verbatim>\<open>(bool, error)\<close> is a pair of the flag and an optional error. The three
  nested loops are three recursive functions; an inner loop returns \<open>Some r\<close> when the
  source returns \<open>r\<close> from inside it and \<open>None\<close> when the loop runs to its end.
\<close>

fun scanForeignKeys :: "string \<Rightarrow> string \<Rightarrow> ForeignKeyConstraint list \<Rightarrow> error option" where
  "scanForeignKeys tableName tableNameToCheck [] = None"
| "scanForeignKeys tableName tableNameToCheck (fk # fks) =
     (if ToLower (ReferencedTable fk) = tableName
      then Some (ErrTruncateReferencedFromForeignKey tableName (FkName fk) tableNameToCheck)
      else scanForeignKeys tableName tableNameToCheck fks)"

fun scanTables :: "Database \<Rightarrow> string \<Rightarrow> string list \<Rightarrow> (bool \<times> error option) option" where
  "scanTables db tableName [] = None"
| "scanTables db tableName (tableNameToCheck # rest) =
     (if ToLower tableNameToCheck = tableName then scanTables db tableName rest
      else case GetTableInsensitive db tableNameToCheck of
        Inl err \<Rightarrow> Some (True, Some err)
      | Inr None \<Rightarrow> Some (True, Some (ErrTableNotFound tableNameToCheck))
      | Inr (Some tableToCheck) \<Rightarrow>
          (case ForeignKeys tableToCheck of
             None \<Rightarrow> scanTables db tableName rest
           | Some (Inl err) \<Rightarrow> Some (True, Some err)
           | Some (Inr fks) \<Rightarrow>
               (case scanForeignKeys tableName tableNameToCheck fks of
                  Some err \<Rightarrow> Some (False, Some err)
                | None \<Rightarrow> scanTables db tableName rest)))"

fun validateDatabases :: "string \<Rightarrow> string \<Rightarrow> Database list \<Rightarrow> bool \<times> error option" where
  "validateDatabases dbName tableName [] = (True, None)"
| "validateDatabases dbName tableName (db # dbs) =
     (if ToLower (DbName db) \<noteq> dbName then validateDatabases dbName tableName dbs
      else case GetTableNames db of
        Inl err \<Rightarrow> (True, Some err)
      | Inr tableNames \<Rightarrow>
          (case scanTables db tableName tableNames of
             Some r \<Rightarrow> r
           | None \<Rightarrow> validateDatabases dbName tableName dbs))"

definition normalizeDbName :: "Env \<Rightarrow> string \<Rightarrow> string" where
  "normalizeDbName env dbName =
     (if dbName = [] then ToLower (GetCurrentDatabase env) else ToLower dbName)"

definition validateTruncate :: "Env \<Rightarrow> string \<Rightarrow> Node \<Rightarrow> bool \<times> error option" where
  "validateTruncate env dbName tbl =
     (case GetTruncatable env tbl of
        Inl err \<Rightarrow> (False, Some err)
      | Inr truncatableName \<Rightarrow>
          validateDatabases (normalizeDbName env dbName) (ToLower truncatableName)
            (AllDatabases env))"

section \<open>deleteToTruncate and processTruncate\<close>

text \<open>
  A function result \<^verbatim>\<open>(sql.Node, error)\<close> is \<open>Inl err\<close> for \<^verbatim>\<open>(nil, err)\<close> and
  \<open>Inr n\<close> for \<^verbatim>\<open>(n, nil)\<close>. The first pair of loops carries the variables
  \<^verbatim>\<open>tblFound\<close> and \<^verbatim>\<open>dbName\<close>; \<open>Inl r\<close> says that the source returns \<open>r\<close> from inside
  the loop, \<open>Inr\<close> gives the variables at the end of the loop.
\<close>

fun scanTableNames ::
  "Node \<Rightarrow> string \<Rightarrow> string \<Rightarrow> string list \<Rightarrow> bool \<times> string
     \<Rightarrow> (error + Node) + bool \<times> string" where
  "scanTableNames deletePlan tblName name [] st = Inr st"
| "scanTableNames deletePlan tblName name (dbTblName # rest) (tblFound, dbName) =
     (if ToLower dbTblName = tblName
      then (if tblFound = False
            then scanTableNames deletePlan tblName name rest (True, name)
            else Inl (Inr deletePlan))
      else scanTableNames deletePlan tblName name rest (tblFound, dbName))"

fun findDatabase ::
  "Node \<Rightarrow> string \<Rightarrow> Database list \<Rightarrow> bool \<times> string \<Rightarrow> (error + Node) + bool \<times> string" where
  "findDatabase deletePlan tblName [] st = Inr st"
| "findDatabase deletePlan tblName (db # dbs) st =
     (case GetTableNames db of
        Inl err \<Rightarrow> Inl (Inl err)
      | Inr dbTblNames \<Rightarrow>
          (case scanTableNames deletePlan tblName (DbName db) dbTblNames st of
             Inl r \<Rightarrow> Inl r
           | Inr st' \<Rightarrow> findDatabase deletePlan tblName dbs st'))"

text \<open>The trigger loops: \<open>Some r\<close> when the source returns \<open>r\<close> from inside the loop.\<close>

fun scanTriggers ::
  "Node \<Rightarrow> string \<Rightarrow> string \<Rightarrow> string \<Rightarrow> string \<Rightarrow> Trigger list \<Rightarrow> (error + Node) option" where
  "scanTriggers deletePlan tblName dbName dbNameLower name [] = None"
| "scanTriggers deletePlan tblName dbName dbNameLower name (trigger # rest) =
     (if TriggerEvent trigger \<noteq> DeleteStr
      then scanTriggers deletePlan tblName dbName dbNameLower name rest
      else case TriggerTable trigger of
        UnresolvedTable triggerTblName triggerDatabase \<Rightarrow>
          (if ToLower triggerTblName = tblName \<and>
              ((triggerDatabase = [] \<and> name = dbName) \<or> ToLower triggerDatabase = dbNameLower)
           then Some (Inr deletePlan)
           else scanTriggers deletePlan tblName dbName dbNameLower name rest)
      | _ \<Rightarrow> Some (Inr deletePlan))"

fun scanTriggerDatabases ::
  "Env \<Rightarrow> Node \<Rightarrow> string \<Rightarrow> string \<Rightarrow> string \<Rightarrow> Database list \<Rightarrow> (error + Node) option" where
  "scanTriggerDatabases env deletePlan tblName dbName dbNameLower [] = None"
| "scanTriggerDatabases env deletePlan tblName dbName dbNameLower (db # dbs) =
     (case loadTriggersFromDb env db of
        Inl err \<Rightarrow> Some (Inl err)
      | Inr triggers \<Rightarrow>
          (case scanTriggers deletePlan tblName dbName dbNameLower (DbName db) triggers of
             Some r \<Rightarrow> Some r
           | None \<Rightarrow> scanTriggerDatabases env deletePlan tblName dbName dbNameLower dbs))"

text \<open>\<open>deleteToTruncate env child\<close> is the source function at \<^verbatim>\<open>deletePlan = DeleteFrom child\<close>.\<close>

definition hasAutoIncrement :: "Column list \<Rightarrow> bool" where
  "hasAutoIncrement cols = list_ex AutoIncrement cols"

definition deleteToTruncate :: "Env \<Rightarrow> Node \<Rightarrow> error + Node" where
  "deleteToTruncate env child =
     (let deletePlan = DeleteFrom child in
      case child of
        ResolvedTable tbl \<Rightarrow>
          (let tblName = ToLower (TableName tbl) in
           if hasAutoIncrement (Schema tbl) then Inr deletePlan
           else case findDatabase deletePlan tblName (AllDatabases env) (False, []) of
             Inl r \<Rightarrow> r
           | Inr (tblFound, dbName) \<Rightarrow>
               if \<not> tblFound then Inr deletePlan
               else (let dbNameLower = ToLower dbName in
                 case scanTriggerDatabases env deletePlan tblName dbName dbNameLower
                        (AllDatabases env) of
                   Some r \<Rightarrow> r
                 | None \<Rightarrow>
                     (case validateTruncate env dbNameLower child of
                        (True, Some err) \<Rightarrow> Inl err
                      | (True, None) \<Rightarrow> Inr (Truncate dbName child)
                      | (False, _) \<Rightarrow> Inr deletePlan)))
      | _ \<Rightarrow> Inr deletePlan)"

fun processTruncate :: "Env \<Rightarrow> Node \<Rightarrow> error + Node" where
  "processTruncate env (DeleteFrom child) = deleteToTruncate env child"
| "processTruncate env (Truncate dbName child) =
     (case validateTruncate env dbName child of
        (_, Some err) \<Rightarrow> Inl err
      | (_, None) \<Rightarrow> Inr (Truncate dbName child))"
| "processTruncate env n = Inr n"

section \<open>The pass with its lookups recorded\<close>

text \<open>
  The catalog and trigger lookups are calls to collaborators. To state which lookups a
  run makes, the functions below are the same functions, returning in addition the list
  of the lookups made, in order, each with the error it returned, if any.
\<close>

datatype lookup =
    CallGetTableNames string "error option"
  | CallLoadTriggers string "error option"
  | CallGetTableInsensitive string string "error option"
  | CallGetForeignKeys string "error option"

fun lookupError :: "lookup \<Rightarrow> error option" where
  "lookupError (CallGetTableNames db e) = e"
| "lookupError (CallLoadTriggers db e) = e"
| "lookupError (CallGetTableInsensitive db t e) = e"
| "lookupError (CallGetForeignKeys t e) = e"

text \<open>The table a lookup asks for, when it asks for one.\<close>

fun lookupTable :: "lookup \<Rightarrow> string option" where
  "lookupTable (CallGetTableNames db e) = None"
| "lookupTable (CallLoadTriggers db e) = None"
| "lookupTable (CallGetTableInsensitive db t e) = Some t"
| "lookupTable (CallGetForeignKeys t e) = Some t"

definition failure :: "error + 'a \<Rightarrow> error option" where
  "failure r = (case r of Inl err \<Rightarrow> Some err | Inr _ \<Rightarrow> None)"

definition withCalls :: "lookup list \<Rightarrow> 'a \<times> lookup list \<Rightarrow> 'a \<times> lookup list" where
  "withCalls calls r = (fst r, calls @ snd r)"

fun scanTables_traced ::
  "Database \<Rightarrow> string \<Rightarrow> string list \<Rightarrow> (bool \<times> error option) option \<times> lookup list" where
  "scanTables_traced db tableName [] = (None, [])"
| "scanTables_traced db tableName (tableNameToCheck # rest) =
     (if ToLower tableNameToCheck = tableName then scanTables_traced db tableName rest
      else withCalls
        [CallGetTableInsensitive (DbName db) tableNameToCheck
           (failure (GetTableInsensitive db tableNameToCheck))]
        (case GetTableInsensitive db tableNameToCheck of
           Inl err \<Rightarrow> (Some (True, Some err), [])
         | Inr None \<Rightarrow> (Some (True, Some (ErrTableNotFound tableNameToCheck)), [])
         | Inr (Some tableToCheck) \<Rightarrow>
             (case ForeignKeys tableToCheck of
                None \<Rightarrow> scanTables_traced db tableName rest
              | Some fksResult \<Rightarrow>
                  withCalls [CallGetForeignKeys tableNameToCheck (failure fksResult)]
                    (case fksResult of
                       Inl err \<Rightarrow> (Some (True, Some err), [])
                     | Inr fks \<Rightarrow>
                         (case scanForeignKeys tableName tableNameToCheck fks of
                            Some err \<Rightarrow> (Some (False, Some err), [])
                          | None \<Rightarrow> scanTables_traced db tableName rest)))))"

fun validateDatabases_traced ::
  "string \<Rightarrow> string \<Rightarrow> Database list \<Rightarrow> (bool \<times> error option) \<times> lookup list" where
  "validateDatabases_traced dbName tableName [] = ((True, None), [])"
| "validateDatabases_traced dbName tableName (db # dbs) =
     (if ToLower (DbName db) \<noteq> dbName then validateDatabases_traced dbName tableName dbs
      else withCalls [CallGetTableNames (DbName db) (failure (GetTableNames db))]
        (case GetTableNames db of
           Inl err \<Rightarrow> ((True, Some err), [])
         | Inr tableNames \<Rightarrow>
             (case scanTables_traced db tableName tableNames of
                (Some r, calls) \<Rightarrow> (r, calls)
              | (None, calls) \<Rightarrow>
                  withCalls calls (validateDatabases_traced dbName tableName dbs))))"

definition validateTruncate_traced ::
  "Env \<Rightarrow> string \<Rightarrow> Node \<Rightarrow> (bool \<times> error option) \<times> lookup list" where
  "validateTruncate_traced env dbName tbl =
     (case GetTruncatable env tbl of
        Inl err \<Rightarrow> ((False, Some err), [])
      | Inr truncatableName \<Rightarrow>
          validateDatabases_traced (normalizeDbName env dbName) (ToLower truncatableName)
            (AllDatabases env))"

fun findDatabase_traced ::
  "Node \<Rightarrow> string \<Rightarrow> Database list \<Rightarrow> bool \<times> string
     \<Rightarrow> ((error + Node) + bool \<times> string) \<times> lookup list" where
  "findDatabase_traced deletePlan tblName [] st = (Inr st, [])"
| "findDatabase_traced deletePlan tblName (db # dbs) st =
     withCalls [CallGetTableNames (DbName db) (failure (GetTableNames db))]
       (case GetTableNames db of
          Inl err \<Rightarrow> (Inl (Inl err), [])
        | Inr dbTblNames \<Rightarrow>
            (case scanTableNames deletePlan tblName (DbName db) dbTblNames st of
               Inl r \<Rightarrow> (Inl r, [])
             | Inr st' \<Rightarrow> findDatabase_traced deletePlan tblName dbs st'))"

fun scanTriggerDatabases_traced ::
  "Env \<Rightarrow> Node \<Rightarrow> string \<Rightarrow> string \<Rightarrow> string \<Rightarrow> Database list
     \<Rightarrow> (error + Node) option \<times> lookup list" where
  "scanTriggerDatabases_traced env deletePlan tblName dbName dbNameLower [] = (None, [])"
| "scanTriggerDatabases_traced env deletePlan tblName dbName dbNameLower (db # dbs) =
     withCalls [CallLoadTriggers (DbName db) (failure (loadTriggersFromDb env db))]
       (case loadTriggersFromDb env db of
          Inl err \<Rightarrow> (Some (Inl err), [])
        | Inr triggers \<Rightarrow>
            (case scanTriggers deletePlan tblName dbName dbNameLower (DbName db) triggers of
               Some r \<Rightarrow> (Some r, [])
             | None \<Rightarrow>
                 scanTriggerDatabases_traced env deletePlan tblName dbName dbNameLower dbs))"

definition deleteToTruncate_traced :: "Env \<Rightarrow> Node \<Rightarrow> (error + Node) \<times> lookup list" where
  "deleteToTruncate_traced env child =
     (let deletePlan = DeleteFrom child in
      case child of
        ResolvedTable tbl \<Rightarrow>
          (let tblName = ToLower (TableName tbl) in
           if hasAutoIncrement (Schema tbl) then (Inr deletePlan, [])
           else case findDatabase_traced deletePlan tblName (AllDatabases env) (False, []) of
             (Inl r, calls) \<Rightarrow> (r, calls)
           | (Inr (tblFound, dbName), calls) \<Rightarrow>
               if \<not> tblFound then (Inr deletePlan, calls)
               else (let dbNameLower = ToLower dbName in
                 case scanTriggerDatabases_traced env deletePlan tblName dbName dbNameLower
                        (AllDatabases env) of
                   (Some r, calls') \<Rightarrow> (r, calls @ calls')
                 | (None, calls') \<Rightarrow>
                     withCalls (calls @ calls')
                       (case validateTruncate_traced env dbNameLower child of
                          ((True, Some err), calls'') \<Rightarrow> (Inl err, calls'')
                        | ((True, None), calls'') \<Rightarrow> (Inr (Truncate dbName child), calls'')
                        | ((False, _), calls'') \<Rightarrow> (Inr deletePlan, calls''))))
      | _ \<Rightarrow> (Inr deletePlan, []))"

fun processTruncate_traced :: "Env \<Rightarrow> Node \<Rightarrow> (error + Node) \<times> lookup list" where
  "processTruncate_traced env (DeleteFrom child) = deleteToTruncate_traced env child"
| "processTruncate_traced env (Truncate dbName child) =
     (case validateTruncate_traced env dbName child of
        ((_, Some err), calls) \<Rightarrow> (Inl err, calls)
      | ((_, None), calls) \<Rightarrow> (Inr (Truncate dbName child), calls))"
| "processTruncate_traced env n = (Inr n, [])"

section \<open>Walk\<close>

text \<open>
  An expression exposes its children. A visitor is a value of any type \<open>'v\<close>; its
  method \<^verbatim>\<open>Visit\<close> may have effects, so it takes and returns a state \<open>'s\<close>, and
  returns the continuation (\<open>None\<close> for nil). Its argument is \<open>None\<close> for the call
  \<^verbatim>\<open>Visit(nil)\<close>. \<open>Walk\<close> threads the state and appends every call of
  \<^verbatim>\<open>Visit\<close> it makes (receiver and argument) to a trace.
\<close>

datatype Expression = Expression (Label: string) (Children: "Expression list")

type_synonym ('v, 's) Visit = "'v \<Rightarrow> Expression option \<Rightarrow> 's \<Rightarrow> 'v option \<times> 's"

fun Walk ::
  "('v, 's) Visit \<Rightarrow> 'v \<Rightarrow> Expression \<Rightarrow> 's \<times> ('v \<times> Expression option) list
     \<Rightarrow> 's \<times> ('v \<times> Expression option) list"
and WalkChildren ::
  "('v, 's) Visit \<Rightarrow> 'v \<Rightarrow> Expression list \<Rightarrow> 's \<times> ('v \<times> Expression option) list
     \<Rightarrow> 's \<times> ('v \<times> Expression option) list" where
  "Walk Visit v (Expression label children) (s, trace) =
     (let expr = Expression label children in
      case Visit v (Some expr) s of
        (None, s') \<Rightarrow> (s', trace @ [(v, Some expr)])
      | (Some v', s') \<Rightarrow>
          (case WalkChildren Visit v' children (s', trace @ [(v, Some expr)]) of
             (s'', trace') \<Rightarrow> (snd (Visit v' None s''), trace' @ [(v', None)])))"
| "WalkChildren Visit v [] st = st"
| "WalkChildren Visit v (child # rest) st = WalkChildren Visit v rest (Walk Visit v child st)"


section \<open>Conditions on a catalog\<close>

text \<open>
  The conditions under which the theorems below are stated. \<open>holdsNoReference db tableName n\<close>:
  the table listed as \<open>n\<close> in \<open>db\<close> is the table \<open>tableName\<close> itself, or it can be
  fetched and either has no foreign keys to offer or its foreign keys can be read and none
  of them references \<open>tableName\<close>. \<open>unreferencedIn db tableName\<close>: the table names of
  \<open>db\<close> can be listed and each of them satisfies \<open>holdsNoReference\<close>.
\<close>

definition referencesTable :: "string \<Rightarrow> ForeignKeyConstraint \<Rightarrow> bool" where
  "referencesTable tableName fk = (ToLower (ReferencedTable fk) = tableName)"

definition holdsNoReference :: "Database \<Rightarrow> string \<Rightarrow> string \<Rightarrow> bool" where
  "holdsNoReference db tableName n =
     (if ToLower n = tableName then True
      else case GetTableInsensitive db n of
        Inr (Some tb) \<Rightarrow>
          (case ForeignKeys tb of
             None \<Rightarrow> True
           | Some (Inr fks) \<Rightarrow> list_all (\<lambda>fk. \<not> referencesTable tableName fk) fks
           | Some (Inl err) \<Rightarrow> False)
      | _ \<Rightarrow> False)"

definition unreferencedIn :: "Database \<Rightarrow> string \<Rightarrow> bool" where
  "unreferencedIn db tableName =
     (case GetTableNames db of
        Inl err \<Rightarrow> False
      | Inr names \<Rightarrow> list_all (holdsNoReference db tableName) names)"

text \<open>
  \<open>triggerTargets tblName dbName name trigger\<close>: the trigger, loaded from the database
  called \<open>name\<close>, fires on delete and its table reference is an unresolved table that
  names \<open>tblName\<close> in the database \<open>dbName\<close> (by its qualifier, or with no qualifier in
  the database \<open>dbName\<close> itself). \<open>triggerUnresolvable\<close>: it fires on delete and its table
  reference is not an unresolved table. \<open>noDeleteTrigger\<close>: the triggers of \<open>db\<close> can be
  loaded and none of them is of either kind.
\<close>

definition triggerTargets :: "string \<Rightarrow> string \<Rightarrow> string \<Rightarrow> Trigger \<Rightarrow> bool" where
  "triggerTargets tblName dbName name trigger =
     (TriggerEvent trigger = DeleteStr \<and>
      (case TriggerTable trigger of
         UnresolvedTable triggerTblName triggerDatabase \<Rightarrow>
           ToLower triggerTblName = tblName \<and>
           ((triggerDatabase = [] \<and> name = dbName) \<or> ToLower triggerDatabase = ToLower dbName)
       | _ \<Rightarrow> False))"

definition triggerUnresolvable :: "Trigger \<Rightarrow> bool" where
  "triggerUnresolvable trigger =
     (TriggerEvent trigger = DeleteStr \<and>
      (case TriggerTable trigger of UnresolvedTable triggerTblName triggerDatabase \<Rightarrow> False
       | _ \<Rightarrow> True))"

definition noDeleteTrigger :: "Env \<Rightarrow> string \<Rightarrow> string \<Rightarrow> Database \<Rightarrow> bool" where
  "noDeleteTrigger env tblName dbName db =
     (case loadTriggersFromDb env db of
        Inl err \<Rightarrow> False
      | Inr triggers \<Rightarrow>
          list_all (\<lambda>trigger. \<not> triggerTargets tblName dbName (DbName db) trigger
                      \<and> \<not> triggerUnresolvable trigger) triggers)"

text \<open>\<open>listsTables db\<close>: the table names of \<open>db\<close> can be listed; \<open>tableNamesOf\<close> are those names.\<close>

definition listsTables :: "Database \<Rightarrow> bool" where
  "listsTables db = (case GetTableNames db of Inl err \<Rightarrow> False | Inr names \<Rightarrow> True)"

definition tableNamesOf :: "Database \<Rightarrow> string list" where
  "tableNamesOf db = (case GetTableNames db of Inl err \<Rightarrow> [] | Inr names \<Rightarrow> names)"

definition matchingNames :: "string \<Rightarrow> Database \<Rightarrow> string list" where
  "matchingNames tblName db = filter (\<lambda>n. ToLower n = tblName) (tableNamesOf db)"

definition loadsTriggers :: "Env \<Rightarrow> Database \<Rightarrow> bool" where
  "loadsTriggers env db = (case loadTriggersFromDb env db of Inl err \<Rightarrow> False | Inr ts \<Rightarrow> True)"

definition triggersOf :: "Env \<Rightarrow> Database \<Rightarrow> Trigger list" where
  "triggersOf env db = (case loadTriggersFromDb env db of Inl err \<Rightarrow> [] | Inr ts \<Rightarrow> ts)"

section \<open>Catalogs that differ in letter case only\<close>

text \<open>
  Two identifiers are the same identifier when they are equal up to letter case. The
  relations below say that two catalogs, two trigger sources and two outcomes of the pass
  are the same up to the letter case of the identifiers in them: the names of the
  databases, the listed table names, the tables referenced by the foreign keys, the table
  names and qualifiers of the trigger targets. Errors of the collaborators and names of
  constraints are compared as they are.
\<close>

definition sameIdent :: "string \<Rightarrow> string \<Rightarrow> bool" where
  "sameIdent a b = (ToLower a = ToLower b)"

definition fkAlike :: "ForeignKeyConstraint \<Rightarrow> ForeignKeyConstraint \<Rightarrow> bool" where
  "fkAlike fk fk' =
     (FkName fk = FkName fk' \<and> sameIdent (ReferencedTable fk) (ReferencedTable fk'))"

definition tableAlike :: "Table \<Rightarrow> Table \<Rightarrow> bool" where
  "tableAlike t t' =
     rel_option (rel_sum (=) (list_all2 fkAlike)) (ForeignKeys t) (ForeignKeys t')"

definition listedAlike :: "Database \<Rightarrow> Database \<Rightarrow> string \<Rightarrow> string \<Rightarrow> bool" where
  "listedAlike db db' n n' =
     (sameIdent n n' \<and>
      rel_sum (=) (rel_option tableAlike) (GetTableInsensitive db n) (GetTableInsensitive db' n'))"

definition dbAlike :: "Database \<Rightarrow> Database \<Rightarrow> bool" where
  "dbAlike db db' =
     (sameIdent (DbName db) (DbName db') \<and>
      rel_sum (=) (list_all2 (listedAlike db db')) (GetTableNames db) (GetTableNames db'))"

fun targetAlike :: "Node \<Rightarrow> Node \<Rightarrow> bool" where
  "targetAlike (UnresolvedTable n q) (UnresolvedTable n' q') = (sameIdent n n' \<and> sameIdent q q')"
| "targetAlike (UnresolvedTable n q) other = False"
| "targetAlike other (UnresolvedTable n' q') = False"
| "targetAlike other other' = True"

definition triggerAlike :: "Trigger \<Rightarrow> Trigger \<Rightarrow> bool" where
  "triggerAlike trigger trigger' =
     (TriggerEvent trigger = TriggerEvent trigger' \<and>
      targetAlike (TriggerTable trigger) (TriggerTable trigger'))"

definition catalogsAlike :: "Env \<Rightarrow> Env \<Rightarrow> bool" where
  "catalogsAlike env env' =
     (sameIdent (GetCurrentDatabase env) (GetCurrentDatabase env') \<and>
      list_all2 dbAlike (AllDatabases env) (AllDatabases env'))"

definition triggersAlike :: "Env \<Rightarrow> Env \<Rightarrow> bool" where
  "triggersAlike env env' =
     list_all2
       (\<lambda>db db'. rel_sum (=) (list_all2 triggerAlike)
                    (loadTriggersFromDb env db) (loadTriggersFromDb env' db'))
       (AllDatabases env) (AllDatabases env')"

text \<open>
  \<open>sameNamePattern\<close>: two databases of the first catalog have exactly the same name if
  and only if the two databases at the same places of the second catalog have.
\<close>

definition sameNamePattern :: "Env \<Rightarrow> Env \<Rightarrow> bool" where
  "sameNamePattern env env' =
     (let names = zip (map DbName (AllDatabases env)) (map DbName (AllDatabases env'))
      in list_all (\<lambda>(a, a'). list_all (\<lambda>(b, b'). (a = b) = (a' = b')) names) names)"

fun errorAlike :: "error \<Rightarrow> error \<Rightarrow> bool" where
  "errorAlike (ErrTableNotFound n) (ErrTableNotFound n') = sameIdent n n'"
| "errorAlike (ErrTruncateReferencedFromForeignKey t c u)
              (ErrTruncateReferencedFromForeignKey t' c' u') =
     (t = t' \<and> c = c' \<and> sameIdent u u')"
| "errorAlike e e' = (e = e')"

definition sameValidation :: "bool \<times> error option \<Rightarrow> bool \<times> error option \<Rightarrow> bool" where
  "sameValidation r r' = (fst r = fst r' \<and> rel_option errorAlike (snd r) (snd r'))"

text \<open>
  Two results of the pass are the same outcome: the same error, or the DELETE kept on both
  sides, or a TRUNCATE on both sides with the same database.
\<close>

fun sameOutcome :: "error + Node \<Rightarrow> error + Node \<Rightarrow> bool" where
  "sameOutcome (Inl e) (Inl e') = errorAlike e e'"
| "sameOutcome (Inr (DeleteFrom c)) (Inr (DeleteFrom c')) = True"
| "sameOutcome (Inr (Truncate d c)) (Inr (Truncate d' c')) = sameIdent d d'"
| "sameOutcome r r' = False"


section \<open>Example catalogs\<close>

text \<open>
  The catalog of the worked scenario: database \<open>sales\<close> with the tables \<open>orders\<close> and
  \<open>order_items\<close>, the second holding the foreign key \<open>fk1\<close> that references the first.
  The other definitions are variations used to exercise the theorems on concrete inputs.
\<close>

definition plainColumn :: "string \<Rightarrow> Column" where
  "plainColumn n = \<lparr>ColumnName = n, AutoIncrement = False\<rparr>"

definition ordersTable :: Table where
  "ordersTable = \<lparr>TableName = ''orders'', Schema = [plainColumn ''id'', plainColumn ''total''],
     ForeignKeys = Some (Inr [])\<rparr>"

definition orderItemsTable :: Table where
  "orderItemsTable = \<lparr>TableName = ''order_items'', Schema = [plainColumn ''order_id''],
     ForeignKeys = Some (Inr [\<lparr>FkName = ''fk1'', ReferencedTable = ''orders''\<rparr>])\<rparr>"

definition countersTable :: Table where
  "countersTable = \<lparr>TableName = ''counters'',
     Schema = [\<lparr>ColumnName = ''id'', AutoIncrement = True\<rparr>, plainColumn ''n''],
     ForeignKeys = None\<rparr>"

definition tablesOf :: "Table list \<Rightarrow> string \<Rightarrow> error + Table option" where
  "tablesOf ts n = Inr (find (\<lambda>t. ToLower (TableName t) = ToLower n) ts)"

definition salesDb :: Database where
  "salesDb = \<lparr>DbName = ''sales'', GetTableNames = Inr [''orders'', ''order_items''],
     GetTableInsensitive = tablesOf [ordersTable, orderItemsTable]\<rparr>"

definition brokenDb :: Database where
  "brokenDb = \<lparr>DbName = ''broken'', GetTableNames = Inl (CollaboratorError ''disk''),
     GetTableInsensitive = (\<lambda>n. Inl (CollaboratorError ''disk''))\<rparr>"

definition archiveDb :: Database where
  "archiveDb = \<lparr>DbName = ''archive'', GetTableNames = Inr [''Orders''],
     GetTableInsensitive = tablesOf [ordersTable]\<rparr>"

definition notesTable :: Table where
  "notesTable = \<lparr>TableName = ''Notes'', Schema = [plainColumn ''body''], ForeignKeys = None\<rparr>"

definition truncatableTable :: "Node \<Rightarrow> error + string" where
  "truncatableTable n =
     (case n of
        ResolvedTable t \<Rightarrow> Inr (TableName t)
      | _ \<Rightarrow> Inl (CollaboratorError ''truncate not supported''))"

definition catalogEnv :: "Database list \<Rightarrow> Env" where
  "catalogEnv dbs = \<lparr>AllDatabases = dbs, GetCurrentDatabase = ''sales'',
     loadTriggersFromDb = (\<lambda>db. Inr []), GetTruncatable = truncatableTable\<rparr>"

definition shopDb :: Database where
  "shopDb = \<lparr>DbName = ''shop'', GetTableNames = Inr [''notes''],
     GetTableInsensitive = tablesOf [notesTable]\<rparr>"

definition notesDeleteTrigger :: Trigger where
  "notesDeleteTrigger = \<lparr>TriggerEvent = ''delete'', TriggerTable = UnresolvedTable ''NOTES'' []\<rparr>"

definition notesInsertTrigger :: Trigger where
  "notesInsertTrigger = \<lparr>TriggerEvent = ''insert'', TriggerTable = UnresolvedTable ''notes'' []\<rparr>"

definition boundDeleteTrigger :: Trigger where
  "boundDeleteTrigger = \<lparr>TriggerEvent = ''delete'', TriggerTable = ResolvedTable ordersTable\<rparr>"

definition triggerEnv :: "Database list \<Rightarrow> (string \<times> (error + Trigger list)) list \<Rightarrow> Env" where
  "triggerEnv dbs triggers =
     (catalogEnv dbs)\<lparr>loadTriggersFromDb :=
        (\<lambda>db. case map_of triggers (DbName db) of Some r \<Rightarrow> r | None \<Rightarrow> Inr [])\<rparr>"

definition categoriesTable :: Table where
  "categoriesTable = \<lparr>TableName = ''categories'', Schema = [plainColumn ''parent''],
     ForeignKeys = Some (Inr [\<lparr>FkName = ''fk_parent'', ReferencedTable = ''Categories''\<rparr>])\<rparr>"

definition pagesTable :: Table where
  "pagesTable = \<lparr>TableName = ''pages'', Schema = [plainColumn ''title''],
     ForeignKeys = Some (Inr [\<lparr>FkName = ''fk_author'', ReferencedTable = ''authors''\<rparr>])\<rparr>"

definition wikiDb :: Database where
  "wikiDb = \<lparr>DbName = ''wiki'', GetTableNames = Inr [''categories'', ''pages''],
     GetTableInsensitive = tablesOf [categoriesTable, pagesTable]\<rparr>"

definition ghostDb :: Database where
  "ghostDb = \<lparr>DbName = ''wiki'', GetTableNames = Inr [''categories'', ''ghost''],
     GetTableInsensitive = tablesOf [categoriesTable]\<rparr>"

text \<open>The same catalog with the letter case of its identifiers changed.\<close>

definition loudOrdersTable :: Table where
  "loudOrdersTable = ordersTable\<lparr>TableName := ''ORDERS''\<rparr>"

definition loudOrderItemsTable :: Table where
  "loudOrderItemsTable = \<lparr>TableName = ''Order_Items'', Schema = [plainColumn ''order_id''],
     ForeignKeys = Some (Inr [\<lparr>FkName = ''fk1'', ReferencedTable = ''ORDERS''\<rparr>])\<rparr>"

definition loudNotesTable :: Table where
  "loudNotesTable = notesTable\<lparr>TableName := ''NOTES''\<rparr>"

definition loudSalesDb :: Database where
  "loudSalesDb = \<lparr>DbName = ''SALES'', GetTableNames = Inr [''ORDERS'', ''Order_Items''],
     GetTableInsensitive = tablesOf [loudOrdersTable, loudOrderItemsTable]\<rparr>"

definition loudShopDb :: Database where
  "loudShopDb = \<lparr>DbName = ''Shop'', GetTableNames = Inr [''NOTES''],
     GetTableInsensitive = tablesOf [loudNotesTable]\<rparr>"

definition loudEnv :: Env where
  "loudEnv = (catalogEnv [loudSalesDb, loudShopDb])\<lparr>GetCurrentDatabase := ''Sales''\<rparr>"

text \<open>
  A catalog with a database that holds no table and one trigger, followed by the database
  \<open>shop\<close>; the name of the first database and the trigger are left open.
\<close>

definition triggerOnlyDb :: "string \<Rightarrow> Database" where
  "triggerOnlyDb name = \<lparr>DbName = name, GetTableNames = Inr [],
     GetTableInsensitive = tablesOf []\<rparr>"

definition ownerEnv :: "string \<Rightarrow> Trigger \<Rightarrow> Env" where
  "ownerEnv name trigger =
     \<lparr>AllDatabases = [triggerOnlyDb name, shopDb], GetCurrentDatabase = ''shop'',
      loadTriggersFromDb = (\<lambda>db. if GetTableNames db = Inr [] then Inr [trigger] else Inr []),
      GetTruncatable = truncatableTable\<rparr>"

definition qualifiedDeleteTrigger :: Trigger where
  "qualifiedDeleteTrigger = \<lparr>TriggerEvent = ''delete'', TriggerTable = UnresolvedTable ''notes'' ''SHOP''\<rparr>"

text \<open>A catalog none of whose tables supports truncation.\<close>

definition rigidEnv :: "Database list \<Rightarrow> Env" where
  "rigidEnv dbs =
     (catalogEnv dbs)\<lparr>GetTruncatable :=
        (\<lambda>n. Inl (CollaboratorError ''truncate not supported''))\<rparr>"

definition noSessionEnv :: "Database list \<Rightarrow> Env" where
  "noSessionEnv dbs = (catalogEnv dbs)\<lparr>GetCurrentDatabase := []\<rparr>"

text \<open>
  An example visitor: visitors are numbered by depth, the state counts the calls, and a
  node labelled \<open>skip\<close> is pruned.
\<close>

definition depthVisit :: "(nat, nat) Visit" where
  "depthVisit v expr s =
     (case expr of
        None \<Rightarrow> (None, Suc s)
      | Some e \<Rightarrow> if Label e = ''skip'' then (None, Suc s) else (Some (Suc v), Suc s))"

definition skipExpr :: Expression where
  "skipExpr = Expression ''skip'' [Expression ''hidden'' []]"

definition leafExpr :: Expression where
  "leafExpr = Expression ''leaf'' []"

definition rootExpr :: Expression where
  "rootExpr = Expression ''root'' [skipExpr, leafExpr]"


section \<open>Evaluation of the examples\<close>

lemmas example_defs = plainColumn_def ordersTable_def orderItemsTable_def countersTable_def
  tablesOf_def salesDb_def brokenDb_def truncatableTable_def catalogEnv_def noSessionEnv_def
  archiveDb_def notesTable_def shopDb_def notesDeleteTrigger_def notesInsertTrigger_def
  boundDeleteTrigger_def triggerEnv_def categoriesTable_def pagesTable_def wikiDb_def ghostDb_def
  loudOrdersTable_def loudOrderItemsTable_def loudNotesTable_def loudSalesDb_def loudShopDb_def
  loudEnv_def rigidEnv_def triggerOnlyDb_def ownerEnv_def qualifiedDeleteTrigger_def

lemmas pass_defs = deleteToTruncate_def validateTruncate_def normalizeDbName_def
  hasAutoIncrement_def ToLower_def DeleteStr_def

lemmas catalog_defs = listsTables_def tableNamesOf_def matchingNames_def loadsTriggers_def
  triggersOf_def unreferencedIn_def holdsNoReference_def referencesTable_def
  noDeleteTrigger_def triggerTargets_def triggerUnresolvable_def

lemmas alike_defs = sameIdent_def fkAlike_def tableAlike_def listedAlike_def dbAlike_def
  triggerAlike_def catalogsAlike_def triggersAlike_def sameNamePattern_def sameValidation_def

lemmas traced_defs = deleteToTruncate_traced_def validateTruncate_traced_def withCalls_def
  failure_def

section \<open>The recorded pass computes the pass\<close>

lemma fst_withCalls [simp]: "fst (withCalls calls r) = fst r"
  by (simp add: withCalls_def)

lemma snd_withCalls [simp]: "snd (withCalls calls r) = calls @ snd r"
  by (simp add: withCalls_def)

lemma scanTables_traced_fst: "scanTables db tableName names = fst (scanTables_traced db tableName names)"
  by (induction names) (auto split: sum.splits option.splits)

lemma validateDatabases_traced_fst:
  "validateDatabases dbName tableName dbs = fst (validateDatabases_traced dbName tableName dbs)"
  by (induction dbs) (auto simp: scanTables_traced_fst split: sum.splits option.splits prod.splits)

lemma validateTruncate_traced_fst:
  "validateTruncate env dbName tbl = fst (validateTruncate_traced env dbName tbl)"
  by (simp add: validateTruncate_traced_def validateTruncate_def validateDatabases_traced_fst
      split: sum.splits)

lemma findDatabase_traced_fst:
  "findDatabase deletePlan tblName dbs st = fst (findDatabase_traced deletePlan tblName dbs st)"
  by (induction dbs arbitrary: st) (auto split: sum.splits)

lemma scanTriggerDatabases_traced_fst:
  "scanTriggerDatabases env deletePlan tblName dbName dbNameLower dbs =
     fst (scanTriggerDatabases_traced env deletePlan tblName dbName dbNameLower dbs)"
  by (induction dbs) (auto split: sum.splits option.splits)

lemma deleteToTruncate_traced_fst:
  "deleteToTruncate env child = fst (deleteToTruncate_traced env child)"
proof (cases child)
  case (ResolvedTable tbl)
  show ?thesis
    unfolding deleteToTruncate_traced_def deleteToTruncate_def ResolvedTable Let_def
      findDatabase_traced_fst scanTriggerDatabases_traced_fst validateTruncate_traced_fst
    by (auto split: prod.splits sum.splits option.splits bool.splits)
qed (simp_all add: deleteToTruncate_traced_def deleteToTruncate_def)

lemma processTruncate_traced_fst:
  "processTruncate env n = fst (processTruncate_traced env n)"
  by (cases n) (auto simp: deleteToTruncate_traced_fst validateTruncate_traced_fst split: prod.splits option.splits)


section \<open>A failed lookup ends the run with its error\<close>

lemma lookupError_failure:
  "failure r = Some e \<longleftrightarrow> r = Inl e"
  by (cases r) (auto simp: failure_def)

lemma scanTables_traced_error:
  "c \<in> set (snd (scanTables_traced db tableName names)) \<Longrightarrow> lookupError c = Some e
     \<Longrightarrow> fst (scanTables_traced db tableName names) = Some (True, Some e)"
  by (induction names)
     (auto simp: lookupError_failure split: sum.splits option.splits if_splits)

lemma validateDatabases_traced_error:
  "c \<in> set (snd (validateDatabases_traced dbName tableName dbs)) \<Longrightarrow> lookupError c = Some e
     \<Longrightarrow> fst (validateDatabases_traced dbName tableName dbs) = (True, Some e)"
proof (induction dbs)
  case Nil
  then show ?case by simp
next
  case (Cons db dbs)
  show ?case
  proof (cases "ToLower (DbName db) \<noteq> dbName")
    case True
    with Cons show ?thesis by simp
  next
    case False
    show ?thesis
    proof (cases "GetTableNames db")
      case (Inl err)
      with False Cons.prems show ?thesis by (simp add: lookupError_failure)
    next
      case (Inr names)
      show ?thesis
      proof (cases "fst (scanTables_traced db tableName names)")
        case None
        then have st: "scanTables_traced db tableName names = (None, snd (scanTables_traced db tableName names))"
          by (metis prod.collapse)
        from Cons.prems False Inr st
        have "c \<in> set (snd (scanTables_traced db tableName names)) \<or>
              c \<in> set (snd (validateDatabases_traced dbName tableName dbs))"
          by (auto simp: failure_def split: prod.splits option.splits)
        then show ?thesis
        proof
          assume "c \<in> set (snd (scanTables_traced db tableName names))"
          from scanTables_traced_error[OF this Cons.prems(2)] None show ?thesis by simp
        next
          assume "c \<in> set (snd (validateDatabases_traced dbName tableName dbs))"
          from Cons.IH[OF this Cons.prems(2)] False Inr st show ?thesis
            by (auto split: prod.splits option.splits)
        qed
      next
        case (Some r)
        then have st: "scanTables_traced db tableName names = (Some r, snd (scanTables_traced db tableName names))"
          by (metis prod.collapse)
        from Cons.prems False Inr st
        have "c \<in> set (snd (scanTables_traced db tableName names))"
          by (auto simp: failure_def split: prod.splits option.splits)
        from scanTables_traced_error[OF this Cons.prems(2)] Some False Inr st show ?thesis
          by (auto split: prod.splits option.splits)
      qed
    qed
  qed
qed

lemma validateTruncate_traced_error:
  "c \<in> set (snd (validateTruncate_traced env dbName tbl)) \<Longrightarrow> lookupError c = Some e
     \<Longrightarrow> fst (validateTruncate_traced env dbName tbl) = (True, Some e)"
  by (auto simp: validateTruncate_traced_def validateDatabases_traced_error split: sum.splits)

lemma findDatabase_traced_error:
  "c \<in> set (snd (findDatabase_traced deletePlan tblName dbs st)) \<Longrightarrow> lookupError c = Some e
     \<Longrightarrow> fst (findDatabase_traced deletePlan tblName dbs st) = Inl (Inl e)"
  by (induction dbs arbitrary: st)
     (auto simp: lookupError_failure split: sum.splits)

lemma scanTriggerDatabases_traced_error:
  "c \<in> set (snd (scanTriggerDatabases_traced env deletePlan tblName dbName dbNameLower dbs))
     \<Longrightarrow> lookupError c = Some e
     \<Longrightarrow> fst (scanTriggerDatabases_traced env deletePlan tblName dbName dbNameLower dbs) = Some (Inl e)"
  by (induction dbs)
     (auto simp: lookupError_failure split: sum.splits option.splits)

lemma findDatabase_traced_errorD:
  "findDatabase_traced deletePlan tblName dbs st = (res, calls) \<Longrightarrow> c \<in> set calls
     \<Longrightarrow> lookupError c = Some e \<Longrightarrow> res = Inl (Inl e)"
  using findDatabase_traced_error[of c deletePlan tblName dbs st e] by simp

lemma scanTriggerDatabases_traced_errorD:
  "scanTriggerDatabases_traced env deletePlan tblName dbName dbNameLower dbs = (res, calls)
     \<Longrightarrow> c \<in> set calls \<Longrightarrow> lookupError c = Some e \<Longrightarrow> res = Some (Inl e)"
  using scanTriggerDatabases_traced_error[of c env deletePlan tblName dbName dbNameLower dbs e]
  by simp

lemma validateTruncate_traced_errorD:
  "validateTruncate_traced env dbName tbl = (res, calls) \<Longrightarrow> c \<in> set calls
     \<Longrightarrow> lookupError c = Some e \<Longrightarrow> res = (True, Some e)"
  using validateTruncate_traced_error[of c env dbName tbl e] by simp

lemma deleteToTruncate_traced_error:
  assumes c: "c \<in> set (snd (deleteToTruncate_traced env child))" and e: "lookupError c = Some e"
  shows "fst (deleteToTruncate_traced env child) = Inl e"
proof (cases child)
  case (ResolvedTable tbl)
  define d where "d = DeleteFrom (ResolvedTable tbl)"
  define n where "n = ToLower (TableName tbl)"
  obtain r1 calls1 where f: "findDatabase_traced d n (AllDatabases env) (False, []) = (r1, calls1)"
    by (cases "findDatabase_traced d n (AllDatabases env) (False, [])")
  note f1 = findDatabase_traced_errorD[OF f _ e]
  show ?thesis
  proof (cases "hasAutoIncrement (Schema tbl)")
    case True
    with c ResolvedTable show ?thesis by (simp add: deleteToTruncate_traced_def)
  next
    case noauto: False
    show ?thesis
    proof (cases r1)
      case (Inl r)
      with c e f f1 noauto ResolvedTable show ?thesis
        by (auto simp: deleteToTruncate_traced_def d_def n_def)
    next
      case (Inr st)
      obtain tblFound dbName where st: "st = (tblFound, dbName)" by (cases st)
      from f1 Inr have no1: "c \<notin> set calls1" by auto
      show ?thesis
      proof (cases tblFound)
        case False
        with c f Inr st no1 noauto ResolvedTable show ?thesis
          by (simp add: deleteToTruncate_traced_def d_def n_def)
      next
        case True
        obtain r2 calls2 where
          t: "scanTriggerDatabases_traced env d n dbName (ToLower dbName) (AllDatabases env) = (r2, calls2)"
          by (cases "scanTriggerDatabases_traced env d n dbName (ToLower dbName) (AllDatabases env)")
        note t1 = scanTriggerDatabases_traced_errorD[OF t _ e]
        show ?thesis
        proof (cases r2)
          case (Some r)
          with c f Inr st no1 noauto ResolvedTable True t t1 show ?thesis
            by (auto simp: deleteToTruncate_traced_def d_def n_def)
        next
          case None
          with t1 have no2: "c \<notin> set calls2" by auto
          obtain r3 calls3 where
            v: "validateTruncate_traced env (ToLower dbName) (ResolvedTable tbl) = (r3, calls3)"
            by (cases "validateTruncate_traced env (ToLower dbName) (ResolvedTable tbl)")
          from c f Inr st no1 noauto ResolvedTable True t None no2 v have "c \<in> set calls3"
            by (auto simp: deleteToTruncate_traced_def d_def n_def
                split: prod.splits option.splits bool.splits)
          from validateTruncate_traced_errorD[OF v this e] have "r3 = (True, Some e)" .
          with f Inr st noauto ResolvedTable True t None v show ?thesis
            by (simp add: deleteToTruncate_traced_def d_def n_def)
        qed
      qed
    qed
  qed
qed (use c in \<open>simp_all add: deleteToTruncate_traced_def\<close>)


lemma validateDatabases_traced_no_match:
  "\<forall>db \<in> set dbs. ToLower (DbName db) \<noteq> dbName \<Longrightarrow>
     validateDatabases_traced dbName tableName dbs = ((True, None), [])"
  by (induction dbs) auto


section \<open>Facts about Walk\<close>

lemma Walk_trace_grows:
  fixes Visit :: "('v, 's) Visit"
  shows "set (snd st) \<subseteq> set (snd (Walk Visit v e st))"
    and "set (snd st) \<subseteq> set (snd (WalkChildren Visit v es st))"
proof (induction Visit v e st and Visit v es st rule: Walk_WalkChildren.induct)
  case (1 Visit v label children s trace)
  show ?case
  proof (cases "Visit v (Some (Expression label children)) s")
    case (Pair r s')
    show ?thesis
    proof (cases r)
      case None
      with Pair show ?thesis by auto
    next
      case (Some v')
      from 1[OF refl Pair[symmetric] Some] Pair Some show ?thesis
        by (auto split: prod.splits)
    qed
  qed
next
  case (2 Visit v st)
  show ?case by simp
next
  case (3 Visit v child rest st)
  then show ?case by auto
qed

lemma Walk_first_call:
  fixes Visit :: "('v, 's) Visit"
  shows "(v, Some e) \<in> set (snd (Walk Visit v e st))"
proof (cases e)
  case (Expression label children)
  obtain s tr where st: "st = (s, tr)" by (cases st)
  obtain r s' where r: "Visit v (Some (Expression label children)) s = (r, s')" by (cases "Visit v (Some (Expression label children)) s")
  show ?thesis
  proof (cases r)
    case None
    with r st Expression show ?thesis by simp
  next
    case (Some v')
    have "(v, Some e) \<in> set (snd (s', tr @ [(v, Some e)]))" by simp
    with Walk_trace_grows(2)[of "(s', tr @ [(v, Some e)])" Visit v' children]
    have "(v, Some e) \<in> set (snd (WalkChildren Visit v' children (s', tr @ [(v, Some e)])))"
      by blast
    with r st Expression Some show ?thesis
      by (auto split: prod.splits)
  qed
qed

lemma WalkChildren_visits_each:
  fixes Visit :: "('v, 's) Visit"
  shows "c \<in> set es \<Longrightarrow> (v, Some c) \<in> set (snd (WalkChildren Visit v es st))"
proof (induction es arbitrary: st)
  case Nil
  then show ?case by simp
next
  case (Cons e es)
  show ?case
  proof (cases "c = e")
    case True
    have "(v, Some c) \<in> set (snd (Walk Visit v e st))"
      using True Walk_first_call by metis
    with Walk_trace_grows(2)[of "Walk Visit v e st" Visit v es] show ?thesis by auto
  next
    case False
    with Cons.prems have "c \<in> set es" by simp
    from Cons.IH[OF this] show ?thesis by simp
  qed
qed

lemma WalkChildren_append:
  fixes Visit :: "('v, 's) Visit"
  shows "WalkChildren Visit v (xs @ ys) st = WalkChildren Visit v ys (WalkChildren Visit v xs st)"
  by (induction xs arbitrary: st) auto

lemma Walk_pruned:
  fixes Visit :: "('v, 's) Visit"
  shows "Visit v (Some e) s = (None, s') \<Longrightarrow> Walk Visit v e (s, tr) = (s', tr @ [(v, Some e)])"
  by (cases e) simp

lemma Walk_descend:
  fixes Visit :: "('v, 's) Visit"
  shows "Visit v (Some e) s = (Some v', s') \<Longrightarrow>
     WalkChildren Visit v' (Children e) (s', tr @ [(v, Some e)]) = (s'', tr') \<Longrightarrow>
     Walk Visit v e (s, tr) = (snd (Visit v' None s''), tr' @ [(v', None)])"
  by (cases e) simp


section \<open>Facts about the loops\<close>

subsection \<open>ToLower\<close>

lemma ToLower_Nil [simp]: "ToLower [] = []"
  by (simp add: ToLower_def)

lemma ToLower_eq_Nil [simp]: "ToLower s = [] \<longleftrightarrow> s = []"
  by (simp add: ToLower_def)

lemma toLowerChar_idem: "toLowerChar (toLowerChar c) = toLowerChar c"
  by (cases c) (auto simp: Let_def)

lemma ToLower_idem [simp]: "ToLower (ToLower s) = ToLower s"
  by (simp add: ToLower_def toLowerChar_idem)

subsection \<open>The search for the database of the table\<close>

lemma listsTables_names: "listsTables db \<Longrightarrow> GetTableNames db = Inr (tableNamesOf db)"
  by (simp add: listsTables_def tableNamesOf_def split: sum.splits)

lemma matchingNames_lists: "matchingNames tblName db \<noteq> [] \<Longrightarrow> listsTables db"
  by (auto simp: matchingNames_def tableNamesOf_def listsTables_def split: sum.splits)

lemma matchingNames_empty:
  "matchingNames tblName db = [] \<longleftrightarrow> (\<forall>n \<in> set (tableNamesOf db). ToLower n \<noteq> tblName)"
  by (auto simp: matchingNames_def filter_empty_conv)

lemma scanTableNames_no_match_pair:
  "\<forall>n \<in> set names. ToLower n \<noteq> tblName \<Longrightarrow>
     scanTableNames deletePlan tblName name names (tblFound, dbName) = Inr (tblFound, dbName)"
  by (induction names) auto

lemma scanTableNames_no_match:
  "\<forall>n \<in> set names. ToLower n \<noteq> tblName \<Longrightarrow>
     scanTableNames deletePlan tblName name names st = Inr st"
  by (cases st) (simp add: scanTableNames_no_match_pair)

lemma scanTableNames_found_match:
  "\<exists>n \<in> set names. ToLower n = tblName \<Longrightarrow>
     scanTableNames deletePlan tblName name names (True, dbName) = Inl (Inr deletePlan)"
  by (induction names) auto

lemma scanTableNames_first_match:
  "\<exists>n \<in> set names. ToLower n = tblName \<Longrightarrow>
     scanTableNames deletePlan tblName name names (False, dbName) = Inl (Inr deletePlan)
     \<or> scanTableNames deletePlan tblName name names (False, dbName) = Inr (True, name)"
proof (induction names)
  case Nil
  then show ?case by simp
next
  case (Cons n names)
  show ?case
  proof (cases "ToLower n = tblName")
    case True
    show ?thesis
    proof (cases "\<exists>m \<in> set names. ToLower m = tblName")
      case True
      with \<open>ToLower n = tblName\<close> show ?thesis
        by (simp add: scanTableNames_found_match)
    next
      case False
      with \<open>ToLower n = tblName\<close> show ?thesis
        by (simp add: scanTableNames_no_match)
    qed
  next
    case False
    with Cons show ?thesis by auto
  qed
qed

lemma scanTableNames_single_match:
  "length (filter (\<lambda>n. ToLower n = tblName) names) = 1 \<Longrightarrow>
     scanTableNames deletePlan tblName name names (False, dbName) = Inr (True, name)"
proof (induction names)
  case Nil
  then show ?case by simp
next
  case (Cons n names)
  show ?case
  proof (cases "ToLower n = tblName")
    case True
    with Cons.prems have "filter (\<lambda>n. ToLower n = tblName) names = []" by simp
    then have "\<forall>m \<in> set names. ToLower m \<noteq> tblName" by (simp add: filter_empty_conv)
    with True show ?thesis by (simp add: scanTableNames_no_match)
  next
    case False
    with Cons show ?thesis by simp
  qed
qed

lemma scanTableNames_outcome:
  "scanTableNames deletePlan tblName name names st = Inl r \<Longrightarrow> r = Inr deletePlan"
proof (induction names arbitrary: st)
  case Nil
  then show ?case by simp
next
  case (Cons n names)
  obtain f d where "st = (f, d)" by (cases st)
  with Cons show ?case by (auto split: if_splits)
qed

lemma findDatabase_append:
  "findDatabase deletePlan tblName (xs @ ys) st =
     (case findDatabase deletePlan tblName xs st of
        Inl r \<Rightarrow> Inl r
      | Inr st' \<Rightarrow> findDatabase deletePlan tblName ys st')"
  by (induction xs arbitrary: st) (auto split: sum.splits)

lemma findDatabase_no_match:
  "\<forall>db \<in> set dbs. listsTables db \<and> matchingNames tblName db = [] \<Longrightarrow>
     findDatabase deletePlan tblName dbs st = Inr st"
proof (induction dbs)
  case Nil
  then show ?case by simp
next
  case (Cons db dbs)
  from Cons.prems have names: "GetTableNames db = Inr (tableNamesOf db)"
    and no: "\<forall>n \<in> set (tableNamesOf db). ToLower n \<noteq> tblName"
    by (simp_all add: listsTables_names matchingNames_empty)
  with Cons show ?case by (simp add: scanTableNames_no_match)
qed

lemma findDatabase_found_then_match:
  "matchingNames tblName db \<noteq> [] \<Longrightarrow>
     findDatabase deletePlan tblName (db # dbs) (True, dbName) = Inl (Inr deletePlan)"
proof -
  assume m: "matchingNames tblName db \<noteq> []"
  then have names: "GetTableNames db = Inr (tableNamesOf db)"
    by (simp add: matchingNames_lists listsTables_names)
  from m have "\<exists>n \<in> set (tableNamesOf db). ToLower n = tblName"
    by (auto simp: matchingNames_empty)
  with names show ?thesis by (simp add: scanTableNames_found_match)
qed

lemma findDatabase_some_match:
  "\<forall>db \<in> set dbs. listsTables db \<Longrightarrow> db \<in> set dbs \<Longrightarrow> matchingNames tblName db \<noteq> [] \<Longrightarrow>
     findDatabase deletePlan tblName dbs (False, dbName) = Inl (Inr deletePlan)
     \<or> (\<exists>n. findDatabase deletePlan tblName dbs (False, dbName) = Inr (True, n))"
proof (induction dbs)
  case Nil
  then show ?case by simp
next
  case (Cons d dbs)
  from Cons.prems(1) have names: "GetTableNames d = Inr (tableNamesOf d)"
    by (simp add: listsTables_names)
  show ?case
  proof (cases "matchingNames tblName d = []")
    case True
    then have no: "\<forall>n \<in> set (tableNamesOf d). ToLower n \<noteq> tblName"
      by (simp add: matchingNames_empty)
    from True Cons.prems have "db \<in> set dbs" by auto
    with Cons.IH Cons.prems names no show ?thesis
      by (simp add: scanTableNames_no_match)
  next
    case False
    then have some: "\<exists>n \<in> set (tableNamesOf d). ToLower n = tblName"
      by (auto simp: matchingNames_empty)
    from scanTableNames_first_match[OF some, of deletePlan "DbName d" dbName]
    show ?thesis
    proof
      assume "scanTableNames deletePlan tblName (DbName d) (tableNamesOf d) (False, dbName)
                = Inl (Inr deletePlan)"
      with names show ?thesis by simp
    next
      assume s: "scanTableNames deletePlan tblName (DbName d) (tableNamesOf d) (False, dbName)
                = Inr (True, DbName d)"
      have "findDatabase deletePlan tblName dbs (True, DbName d) = Inl (Inr deletePlan)
            \<or> findDatabase deletePlan tblName dbs (True, DbName d) = Inr (True, DbName d)"
        using Cons.prems(1)
      proof (induction dbs)
        case Nil
        then show ?case by simp
      next
        case (Cons e es)
        from Cons.prems have en: "GetTableNames e = Inr (tableNamesOf e)"
          by (simp add: listsTables_names)
        show ?case
        proof (cases "matchingNames tblName e = []")
          case True
          then have "\<forall>n \<in> set (tableNamesOf e). ToLower n \<noteq> tblName"
            by (simp add: matchingNames_empty)
          with Cons en show ?thesis by (simp add: scanTableNames_no_match)
        next
          case False
          from findDatabase_found_then_match[OF False, of deletePlan es "DbName d"]
          show ?thesis by blast
        qed
      qed
      with names s show ?thesis by auto
    qed
  qed
qed

lemma findDatabase_unique:
  assumes pre: "\<forall>db \<in> set pre. listsTables db \<and> matchingNames tblName db = []"
    and post: "\<forall>db \<in> set post. listsTables db \<and> matchingNames tblName db = []"
    and one: "length (matchingNames tblName d) = 1"
  shows "findDatabase deletePlan tblName (pre @ d # post) (False, dbName) = Inr (True, DbName d)"
proof -
  from one have "matchingNames tblName d \<noteq> []" by auto
  then have names: "GetTableNames d = Inr (tableNamesOf d)"
    by (simp add: matchingNames_lists listsTables_names)
  from one have "scanTableNames deletePlan tblName (DbName d) (tableNamesOf d) (False, dbName)
      = Inr (True, DbName d)"
    by (simp add: matchingNames_def scanTableNames_single_match)
  with names findDatabase_no_match[OF pre] findDatabase_no_match[OF post] show ?thesis
    by (simp add: findDatabase_append)
qed

lemma findDatabase_found_stays:
  "findDatabase deletePlan tblName dbs (True, n0) = Inr st \<Longrightarrow>
     st = (True, n0) \<and> (\<forall>db \<in> set dbs. matchingNames tblName db = [])"
proof (induction dbs)
  case Nil
  then show ?case by simp
next
  case (Cons d dbs)
  from Cons.prems obtain names where names: "GetTableNames d = Inr names"
    by (auto split: sum.splits)
  then have tn: "tableNamesOf d = names" by (simp add: tableNamesOf_def)
  show ?case
  proof (cases "\<exists>n \<in> set names. ToLower n = tblName")
    case True
    with names Cons.prems show ?thesis by (simp add: scanTableNames_found_match)
  next
    case False
    with names Cons.prems have "findDatabase deletePlan tblName dbs (True, n0) = Inr st"
      by (simp add: scanTableNames_no_match)
    with Cons.IH False tn show ?thesis by (auto simp: matchingNames_empty)
  qed
qed

lemma findDatabase_result_name:
  "findDatabase deletePlan tblName dbs (False, n0) = Inr (tblFound, n) \<Longrightarrow> d \<in> set dbs
     \<Longrightarrow> matchingNames tblName d \<noteq> [] \<Longrightarrow> tblFound \<and> n = DbName d"
proof (induction dbs)
  case Nil
  then show ?case by simp
next
  case (Cons e dbs)
  from Cons.prems(1) obtain names where names: "GetTableNames e = Inr names"
    by (auto split: sum.splits)
  then have tn: "tableNamesOf e = names" by (simp add: tableNamesOf_def)
  show ?case
  proof (cases "\<exists>n \<in> set names. ToLower n = tblName")
    case True
    from scanTableNames_first_match[OF True, of deletePlan "DbName e" n0] names Cons.prems(1)
    have "findDatabase deletePlan tblName dbs (True, DbName e) = Inr (tblFound, n)"
      by auto
    from findDatabase_found_stays[OF this]
    have r: "tblFound" "n = DbName e" and rest: "\<forall>db \<in> set dbs. matchingNames tblName db = []"
      by auto
    from rest Cons.prems(2,3) have "d = e" by auto
    with r show ?thesis by simp
  next
    case False
    with tn have "matchingNames tblName e = []" by (simp add: matchingNames_empty)
    with Cons.prems have "d \<in> set dbs" by auto
    moreover from names False Cons.prems(1)
    have "findDatabase deletePlan tblName dbs (False, n0) = Inr (tblFound, n)"
      by (simp add: scanTableNames_no_match)
    ultimately show ?thesis using Cons.IH Cons.prems(3) by simp
  qed
qed

lemma findDatabase_no_error:
  "\<forall>db \<in> set dbs. listsTables db \<Longrightarrow> findDatabase deletePlan tblName dbs st = Inl r
     \<Longrightarrow> r = Inr deletePlan"
proof (induction dbs arbitrary: st)
  case Nil
  then show ?case by simp
next
  case (Cons d dbs)
  from Cons.prems(1) have names: "GetTableNames d = Inr (tableNamesOf d)"
    by (simp add: listsTables_names)
  show ?case
  proof (cases "scanTableNames deletePlan tblName (DbName d) (tableNamesOf d) st")
    case (Inl r')
    with names Cons.prems(2) scanTableNames_outcome[OF Inl] show ?thesis by simp
  next
    case (Inr st')
    with names Cons.prems Cons.IH[of st'] show ?thesis by simp
  qed
qed

subsection \<open>The scan of the triggers\<close>

lemma loadsTriggers_triggers:
  "loadsTriggers env db \<Longrightarrow> loadTriggersFromDb env db = Inr (triggersOf env db)"
  by (simp add: loadsTriggers_def triggersOf_def split: sum.splits)

lemma scanTriggers_outcome:
  "scanTriggers deletePlan tblName dbName dbNameLower name triggers = Some r
     \<Longrightarrow> r = Inr deletePlan"
  by (induction triggers) (auto split: if_splits Node.splits)

lemma scanTriggers_blocked:
  "trigger \<in> set triggers \<Longrightarrow>
   triggerTargets tblName dbName name trigger \<or> triggerUnresolvable trigger \<Longrightarrow>
     scanTriggers deletePlan tblName dbName (ToLower dbName) name triggers = Some (Inr deletePlan)"
proof (induction triggers)
  case Nil
  then show ?case by simp
next
  case (Cons t triggers)
  show ?case
  proof (cases "scanTriggers deletePlan tblName dbName (ToLower dbName) name (t # triggers)")
    case None
    with Cons show ?thesis
      by (auto simp: triggerTargets_def triggerUnresolvable_def split: if_splits Node.splits)
  next
    case (Some r)
    with scanTriggers_outcome[OF Some] show ?thesis by simp
  qed
qed

lemma scanTriggers_none:
  "list_all (\<lambda>trigger. \<not> triggerTargets tblName dbName name trigger
              \<and> \<not> triggerUnresolvable trigger) triggers \<Longrightarrow>
     scanTriggers deletePlan tblName dbName (ToLower dbName) name triggers = None"
  by (induction triggers)
     (auto simp: triggerTargets_def triggerUnresolvable_def split: Node.splits)

lemma scanTriggers_filter:
  "scanTriggers deletePlan tblName dbName dbNameLower name
     (filter (\<lambda>trigger. TriggerEvent trigger = DeleteStr) triggers) =
   scanTriggers deletePlan tblName dbName dbNameLower name triggers"
  by (induction triggers) (auto split: Node.splits)

lemma scanTriggerDatabases_outcome:
  "\<forall>db \<in> set dbs. loadsTriggers env db \<Longrightarrow>
   scanTriggerDatabases env deletePlan tblName dbName dbNameLower dbs = Some r \<Longrightarrow>
     r = Inr deletePlan"
proof (induction dbs)
  case Nil
  then show ?case by simp
next
  case (Cons db dbs)
  from Cons.prems(1) have l: "loadTriggersFromDb env db = Inr (triggersOf env db)"
    by (simp add: loadsTriggers_triggers)
  show ?case
  proof (cases "scanTriggers deletePlan tblName dbName dbNameLower (DbName db) (triggersOf env db)")
    case None
    with l Cons show ?thesis by simp
  next
    case (Some r')
    with l Cons.prems(2) scanTriggers_outcome[OF Some] show ?thesis by simp
  qed
qed

lemma scanTriggerDatabases_blocked:
  "\<forall>db \<in> set before. loadsTriggers env db \<Longrightarrow> trigger \<in> set (triggersOf env db) \<Longrightarrow>
   triggerTargets tblName dbName (DbName db) trigger \<or> triggerUnresolvable trigger \<Longrightarrow>
     scanTriggerDatabases env deletePlan tblName dbName (ToLower dbName) (before @ db # after)
       = Some (Inr deletePlan)"
proof (induction before)
  case Nil
  from Nil.prems(2) have "loadTriggersFromDb env db = Inr (triggersOf env db)"
    by (auto simp: triggersOf_def split: sum.splits)
  with scanTriggers_blocked[OF Nil.prems(2,3), of deletePlan] show ?case by simp
next
  case (Cons d before)
  from Cons.prems(1) have l: "loadTriggersFromDb env d = Inr (triggersOf env d)"
    by (simp add: loadsTriggers_triggers)
  show ?case
  proof (cases "scanTriggers deletePlan tblName dbName (ToLower dbName) (DbName d) (triggersOf env d)")
    case (Some r)
    with l scanTriggers_outcome[OF Some] show ?thesis by simp
  next
    case None
    with Cons l show ?thesis by simp
  qed
qed

lemma scanTriggerDatabases_none:
  "\<forall>db \<in> set dbs. noDeleteTrigger env tblName dbName db \<Longrightarrow>
     scanTriggerDatabases env deletePlan tblName dbName (ToLower dbName) dbs = None"
proof (induction dbs)
  case Nil
  then show ?case by simp
next
  case (Cons d dbs)
  from Cons.prems have "noDeleteTrigger env tblName dbName d" by simp
  then obtain triggers where l: "loadTriggersFromDb env d = Inr triggers"
    and n: "list_all (\<lambda>trigger. \<not> triggerTargets tblName dbName (DbName d) trigger
              \<and> \<not> triggerUnresolvable trigger) triggers"
    by (auto simp: noDeleteTrigger_def split: sum.splits)
  with Cons scanTriggers_none[OF n, of deletePlan] show ?case by simp
qed

lemma scanTriggerDatabases_filter:
  "scanTriggerDatabases
     (env\<lparr>loadTriggersFromDb := \<lambda>db. map_sum id (filter (\<lambda>trigger. TriggerEvent trigger = DeleteStr))
                                        (loadTriggersFromDb env db)\<rparr>)
     deletePlan tblName dbName dbNameLower dbs =
   scanTriggerDatabases env deletePlan tblName dbName dbNameLower dbs"
  by (induction dbs) (auto simp: scanTriggers_filter split: sum.splits option.splits)

subsection \<open>The scan of the foreign keys\<close>

lemma scanForeignKeys_none:
  "list_all (\<lambda>fk. \<not> referencesTable tableName fk) fks \<Longrightarrow>
     scanForeignKeys tableName tableNameToCheck fks = None"
  by (induction fks) (auto simp: referencesTable_def)

lemma scanForeignKeys_first:
  "list_all (\<lambda>fk. \<not> referencesTable tableName fk) before \<Longrightarrow> referencesTable tableName fk \<Longrightarrow>
     scanForeignKeys tableName tableNameToCheck (before @ fk # after) =
       Some (ErrTruncateReferencedFromForeignKey tableName (FkName fk) tableNameToCheck)"
  by (induction before) (auto simp: referencesTable_def)

lemma scanTables_skip:
  "list_all (holdsNoReference db tableName) before \<Longrightarrow>
     scanTables db tableName (before @ rest) = scanTables db tableName rest"
  by (induction before)
     (auto simp: holdsNoReference_def scanForeignKeys_none split: sum.splits option.splits if_splits)

lemma scanTables_none:
  "list_all (holdsNoReference db tableName) names \<Longrightarrow> scanTables db tableName names = None"
  using scanTables_skip[of db tableName names "[]"] by simp

lemma validateDatabases_skip:
  "\<forall>db \<in> set before. ToLower (DbName db) = dbName \<longrightarrow> unreferencedIn db tableName \<Longrightarrow>
     validateDatabases dbName tableName (before @ rest) = validateDatabases dbName tableName rest"
proof (induction before)
  case Nil
  then show ?case by simp
next
  case (Cons d before)
  show ?case
  proof (cases "ToLower (DbName d) = dbName")
    case False
    with Cons show ?thesis by simp
  next
    case True
    with Cons.prems have "unreferencedIn d tableName" by simp
    then obtain names where "GetTableNames d = Inr names"
      and "list_all (holdsNoReference d tableName) names"
      by (auto simp: unreferencedIn_def split: sum.splits)
    with True Cons show ?thesis by (simp add: scanTables_none)
  qed
qed

lemma validateDatabases_unreferenced:
  "\<forall>db \<in> set dbs. ToLower (DbName db) = dbName \<longrightarrow> unreferencedIn db tableName \<Longrightarrow>
     validateDatabases dbName tableName dbs = (True, None)"
  using validateDatabases_skip[of dbs dbName tableName "[]"] by simp

lemma normalizeDbName_lower:
  "dbName \<noteq> [] \<Longrightarrow> normalizeDbName env (ToLower dbName) = ToLower dbName"
  by (simp add: normalizeDbName_def)

lemma deleteToTruncate_ResolvedTable:
  "deleteToTruncate env (ResolvedTable tbl) =
     (if hasAutoIncrement (Schema tbl) then Inr (DeleteFrom (ResolvedTable tbl))
      else case findDatabase (DeleteFrom (ResolvedTable tbl)) (ToLower (TableName tbl))
                  (AllDatabases env) (False, []) of
        Inl r \<Rightarrow> r
      | Inr (tblFound, dbName) \<Rightarrow>
          if \<not> tblFound then Inr (DeleteFrom (ResolvedTable tbl))
          else (case scanTriggerDatabases env (DeleteFrom (ResolvedTable tbl))
                       (ToLower (TableName tbl)) dbName (ToLower dbName) (AllDatabases env) of
             Some r \<Rightarrow> r
           | None \<Rightarrow>
               (case validateTruncate env (ToLower dbName) (ResolvedTable tbl) of
                  (True, Some err) \<Rightarrow> Inl err
                | (True, None) \<Rightarrow> Inr (Truncate dbName (ResolvedTable tbl))
                | (False, x) \<Rightarrow> Inr (DeleteFrom (ResolvedTable tbl)))))"
  by (auto simp: deleteToTruncate_def Let_def split: sum.splits prod.splits)

lemma validateTruncate_triggers_irrelevant:
  "validateTruncate (env\<lparr>loadTriggersFromDb := f\<rparr>) dbName tbl = validateTruncate env dbName tbl"
  by (simp add: validateTruncate_def normalizeDbName_def split: sum.splits)

lemma deleteToTruncate_delete_triggers_only:
  "deleteToTruncate
     (env\<lparr>loadTriggersFromDb :=
        \<lambda>db. map_sum id (filter (\<lambda>trigger. TriggerEvent trigger = DeleteStr))
               (loadTriggersFromDb env db)\<rparr>) child
   = deleteToTruncate env child"
proof (cases child)
  case (ResolvedTable tbl)
  show ?thesis
    unfolding ResolvedTable deleteToTruncate_ResolvedTable
    by (simp add: scanTriggerDatabases_filter validateTruncate_triggers_irrelevant
        split: sum.splits prod.splits option.splits)
qed (simp_all add: deleteToTruncate_def)

lemma validateDatabases_first_reference:
  assumes pre: "\<forall>db \<in> set pre. ToLower (DbName db) = dbName \<longrightarrow> unreferencedIn db tableName"
    and d: "ToLower (DbName d) = dbName"
    and names: "GetTableNames d = Inr (before @ u # after)"
    and before: "list_all (holdsNoReference d tableName) before"
    and u: "ToLower u \<noteq> tableName" "GetTableInsensitive d u = Inr (Some tableToCheck)"
    and fks: "ForeignKeys tableToCheck = Some (Inr (fbefore @ fk # fafter))"
    and fbefore: "list_all (\<lambda>fk. \<not> referencesTable tableName fk) fbefore"
    and fk: "referencesTable tableName fk"
  shows "validateDatabases dbName tableName (pre @ d # post) =
           (False, Some (ErrTruncateReferencedFromForeignKey tableName (FkName fk) u))"
proof -
  have "scanTables d tableName (before @ u # after) =
          Some (False, Some (ErrTruncateReferencedFromForeignKey tableName (FkName fk) u))"
    using u fks scanForeignKeys_first[OF fbefore fk, of u fafter]
    by (simp add: scanTables_skip[OF before])
  with d names show ?thesis
    by (simp add: validateDatabases_skip[OF pre])
qed

lemma scanTables_traced_skips:
  "c \<in> set (snd (scanTables_traced db tableName names)) \<Longrightarrow> lookupTable c = Some n
     \<Longrightarrow> ToLower n \<noteq> tableName"
  by (induction names) (auto split: sum.splits option.splits if_splits)

lemma validateDatabases_traced_skips:
  "c \<in> set (snd (validateDatabases_traced dbName tableName dbs)) \<Longrightarrow> lookupTable c = Some n
     \<Longrightarrow> ToLower n \<noteq> tableName"
proof (induction dbs)
  case Nil
  then show ?case by simp
next
  case (Cons db dbs)
  show ?case
  proof (cases "ToLower (DbName db) \<noteq> dbName")
    case True
    with Cons show ?thesis by simp
  next
    case False
    show ?thesis
    proof (cases "GetTableNames db")
      case (Inl err)
      with False Cons.prems show ?thesis by auto
    next
      case (Inr names)
      obtain r calls where st: "scanTables_traced db tableName names = (r, calls)"
        by (cases "scanTables_traced db tableName names")
      from Cons.prems False Inr st
      have "c \<in> set calls \<or> c \<in> set (snd (validateDatabases_traced dbName tableName dbs))"
        by (auto split: option.splits)
      then show ?thesis
      proof
        assume "c \<in> set calls"
        with st scanTables_traced_skips[of c db tableName names n] Cons.prems(2)
        show ?thesis by simp
      next
        assume "c \<in> set (snd (validateDatabases_traced dbName tableName dbs))"
        from Cons.IH[OF this Cons.prems(2)] show ?thesis .
      qed
    qed
  qed
qed

lemma deleteToTruncate_rewrites:
  assumes noauto: "\<not> hasAutoIncrement (Schema tbl)"
    and trunc: "GetTruncatable env (ResolvedTable tbl) = Inr (TableName tbl)"
    and dbs: "AllDatabases env = pre @ d # post"
    and pre: "\<forall>db \<in> set pre. listsTables db \<and> matchingNames (ToLower (TableName tbl)) db = []"
    and post: "\<forall>db \<in> set post. listsTables db \<and> matchingNames (ToLower (TableName tbl)) db = []"
    and one: "length (matchingNames (ToLower (TableName tbl)) d) = 1"
    and named: "DbName d \<noteq> []"
    and trig: "\<forall>db \<in> set (AllDatabases env).
                 noDeleteTrigger env (ToLower (TableName tbl)) (DbName d) db"
    and refs: "\<forall>db \<in> set (AllDatabases env). ToLower (DbName db) = ToLower (DbName d)
                 \<longrightarrow> unreferencedIn db (ToLower (TableName tbl))"
  shows "deleteToTruncate env (ResolvedTable tbl) = Inr (Truncate (DbName d) (ResolvedTable tbl))"
proof -
  have f: "findDatabase (DeleteFrom (ResolvedTable tbl)) (ToLower (TableName tbl))
             (AllDatabases env) (False, []) = Inr (True, DbName d)"
    unfolding dbs by (rule findDatabase_unique[OF pre post one])
  have t: "scanTriggerDatabases env (DeleteFrom (ResolvedTable tbl)) (ToLower (TableName tbl))
             (DbName d) (ToLower (DbName d)) (AllDatabases env) = None"
    by (rule scanTriggerDatabases_none[OF trig])
  have v: "validateTruncate env (ToLower (DbName d)) (ResolvedTable tbl) = (True, None)"
    using named refs
    by (simp add: validateTruncate_def trunc normalizeDbName_lower validateDatabases_unreferenced)
  from noauto f t v show ?thesis
    by (simp add: deleteToTruncate_ResolvedTable)
qed

subsection \<open>Letter case\<close>

lemma sameIdent_refl [simp]: "sameIdent a a"
  by (simp add: sameIdent_def)

lemma sameIdent_Nil: "sameIdent a b \<Longrightarrow> (a = []) = (b = [])"
  by (metis ToLower_eq_Nil sameIdent_def)

lemma errorAlike_refl [simp]: "errorAlike e e"
  by (cases e) simp_all

lemma rel_sumE:
  assumes "rel_sum R S x y"
  obtains (Inl) a b where "x = Inl a" "y = Inl b" "R a b"
        | (Inr) a b where "x = Inr a" "y = Inr b" "S a b"
  using assms by (cases x; cases y) auto

lemma scanForeignKeys_alike:
  "list_all2 fkAlike fks fks' \<Longrightarrow> sameIdent u u' \<Longrightarrow>
     rel_option errorAlike (scanForeignKeys tableName u fks) (scanForeignKeys tableName u' fks')"
  by (induction fks fks' rule: list_all2_induct) (auto simp: fkAlike_def sameIdent_def)

lemma scanTables_alike:
  "list_all2 (listedAlike db db') names names' \<Longrightarrow>
     rel_option sameValidation (scanTables db tableName names) (scanTables db' tableName names')"
proof (induction names names' rule: list_all2_induct)
  case Nil
  then show ?case by simp
next
  case (Cons n names n' names')
  from Cons.hyps(1) have same: "ToLower n = ToLower n'"
    and look: "rel_sum (=) (rel_option tableAlike) (GetTableInsensitive db n) (GetTableInsensitive db' n')"
    by (simp_all add: listedAlike_def sameIdent_def)
  show ?case
  proof (cases "ToLower n = tableName")
    case True
    with same Cons.IH show ?thesis by simp
  next
    case False
    with same have False': "ToLower n' \<noteq> tableName" by simp
    from look show ?thesis
    proof (cases rule: rel_sumE)
      case (Inl e e')
      with False False' show ?thesis by (simp add: sameValidation_def)
    next
      case (Inr r r')
      from Inr(3) show ?thesis
      proof (cases rule: option.rel_cases)
        case None
        with Inr False False' same show ?thesis
          by (simp add: sameValidation_def sameIdent_def)
      next
        case (Some t t')
        from Some(3) have "rel_option (rel_sum (=) (list_all2 fkAlike)) (ForeignKeys t) (ForeignKeys t')"
          by (simp add: tableAlike_def)
        then show ?thesis
        proof (cases rule: option.rel_cases)
          case None
          with Some Inr False False' Cons.IH show ?thesis by simp
        next
          case (Some f f')
          note fks = this
          from fks(3) show ?thesis
          proof (cases rule: rel_sumE)
            case (Inl e e')
            with fks \<open>r = Some t\<close> \<open>r' = Some t'\<close> Inr False False' show ?thesis
              by (simp add: sameValidation_def)
          next
            case (Inr ks ks')
            from scanForeignKeys_alike[OF Inr(3), of n n' tableName] same
            have "rel_option errorAlike (scanForeignKeys tableName n ks)
                    (scanForeignKeys tableName n' ks')"
              by (simp add: sameIdent_def)
            then show ?thesis
            proof (cases rule: option.rel_cases)
              case None
              with Inr fks \<open>r = Some t\<close> \<open>r' = Some t'\<close>
                \<open>GetTableInsensitive db n = Inr r\<close> \<open>GetTableInsensitive db' n' = Inr r'\<close>
                False False' Cons.IH
              show ?thesis by simp
            next
              case (Some x x')
              with Inr fks \<open>r = Some t\<close> \<open>r' = Some t'\<close>
                \<open>GetTableInsensitive db n = Inr r\<close> \<open>GetTableInsensitive db' n' = Inr r'\<close>
                False False'
              show ?thesis by (simp add: sameValidation_def)
            qed
          qed
        qed
      qed
    qed
  qed
qed

lemma validateDatabases_alike:
  "list_all2 dbAlike dbs dbs' \<Longrightarrow>
     sameValidation (validateDatabases dbName tableName dbs)
       (validateDatabases dbName tableName dbs')"
proof (induction dbs dbs' rule: list_all2_induct)
  case Nil
  then show ?case by (simp add: sameValidation_def)
next
  case (Cons db dbs db' dbs')
  from Cons.hyps(1) have same: "ToLower (DbName db) = ToLower (DbName db')"
    and names: "rel_sum (=) (list_all2 (listedAlike db db')) (GetTableNames db) (GetTableNames db')"
    by (simp_all add: dbAlike_def sameIdent_def)
  show ?case
  proof (cases "ToLower (DbName db) = dbName")
    case False
    with same Cons.IH show ?thesis by simp
  next
    case True
    from names show ?thesis
    proof (cases rule: rel_sumE)
      case (Inl e e')
      with True same show ?thesis by (simp add: sameValidation_def)
    next
      case (Inr ns ns')
      from scanTables_alike[OF Inr(3), of tableName] show ?thesis
      proof (cases rule: option.rel_cases)
        case None
        with Inr True same Cons.IH show ?thesis by simp
      next
        case (Some r r')
        with Inr True same show ?thesis by simp
      qed
    qed
  qed
qed

lemma validateTruncate_alike:
  assumes "catalogsAlike env env'" and "sameIdent dbName dbName'"
    and "rel_sum (=) sameIdent (GetTruncatable env node) (GetTruncatable env' node')"
  shows "sameValidation (validateTruncate env dbName node) (validateTruncate env' dbName' node')"
proof -
  from assms(1,2) have n: "normalizeDbName env dbName = normalizeDbName env' dbName'"
    using sameIdent_Nil[OF assms(2)]
    by (auto simp: normalizeDbName_def catalogsAlike_def sameIdent_def)
  from assms(1) have dbs: "list_all2 dbAlike (AllDatabases env) (AllDatabases env')"
    by (simp add: catalogsAlike_def)
  from assms(3) show ?thesis
  proof (cases rule: rel_sumE)
    case (Inl e e')
    then show ?thesis by (simp add: validateTruncate_def sameValidation_def)
  next
    case (Inr t t')
    with validateDatabases_alike[OF dbs, of "normalizeDbName env dbName" "ToLower t"] n
    show ?thesis by (simp add: validateTruncate_def sameIdent_def)
  qed
qed

lemma scanTableNames_alike:
  "list_all2 sameIdent names names' \<Longrightarrow> R n n' \<Longrightarrow> R name name' \<Longrightarrow>
     rel_sum sameOutcome (rel_prod (=) R)
       (scanTableNames (DeleteFrom c) tblName name names (tblFound, n))
       (scanTableNames (DeleteFrom c') tblName name' names' (tblFound, n'))"
proof (induction names names' arbitrary: tblFound n n' rule: list_all2_induct)
  case Nil
  then show ?case by simp
next
  case (Cons x xs y ys)
  from Cons.hyps(1) have same: "ToLower x = ToLower y" by (simp add: sameIdent_def)
  show ?case
  proof (cases "ToLower x = tblName")
    case False
    with same Cons.IH[OF Cons.prems] show ?thesis by simp
  next
    case True
    show ?thesis
    proof (cases tblFound)
      case True
      with \<open>ToLower x = tblName\<close> same show ?thesis by simp
    next
      case False
      with \<open>ToLower x = tblName\<close> same Cons.IH[OF Cons.prems(2) Cons.prems(2), of True]
      show ?thesis by simp
    qed
  qed
qed

lemma listedAlike_sameIdent:
  "list_all2 (listedAlike db db') names names' \<Longrightarrow> list_all2 sameIdent names names'"
  by (erule list_all2_mono) (simp add: listedAlike_def)

lemma findDatabase_alike:
  "list_all2 (\<lambda>db db'. dbAlike db db' \<and> R (DbName db) (DbName db')) dbs dbs' \<Longrightarrow> R n n' \<Longrightarrow>
     rel_sum sameOutcome (rel_prod (=) R)
       (findDatabase (DeleteFrom c) tblName dbs (tblFound, n))
       (findDatabase (DeleteFrom c') tblName dbs' (tblFound, n'))"
proof (induction dbs dbs' arbitrary: tblFound n n' rule: list_all2_induct)
  case Nil
  then show ?case by simp
next
  case (Cons db dbs db' dbs')
  from Cons.hyps(1) have r: "R (DbName db) (DbName db')"
    and names: "rel_sum (=) (list_all2 (listedAlike db db')) (GetTableNames db) (GetTableNames db')"
    by (simp_all add: dbAlike_def)
  from names show ?case
  proof (cases rule: rel_sumE)
    case (Inl e e')
    then show ?thesis by simp
  next
    case (Inr ns ns')
    from scanTableNames_alike[where R = R and n = n and n' = n' and name = "DbName db"
        and name' = "DbName db'" and c = c and c' = c' and tblName = tblName
        and tblFound = tblFound, OF listedAlike_sameIdent[OF Inr(3)] Cons.prems r]
    show ?thesis
    proof (cases rule: rel_sumE)
      case (Inl a b)
      with Inr show ?thesis by simp
    next
      case inner: (Inr st st')
      obtain f m where st: "st = (f, m)" by (cases st)
      obtain f' m' where st': "st' = (f', m')" by (cases st')
      from inner(3) st st' have "f' = f" "R m m'" by simp_all
      with Cons.IH[of m m' f] Inr inner st st' show ?thesis by simp
    qed
  qed
qed

lemma scanTriggers_alike:
  "list_all2 triggerAlike triggers triggers' \<Longrightarrow> (name = dbName) = (name' = dbName') \<Longrightarrow>
     rel_option sameOutcome
       (scanTriggers (DeleteFrom c) tblName dbName dbNameLower name triggers)
       (scanTriggers (DeleteFrom c') tblName dbName' dbNameLower name' triggers')"
proof (induction triggers triggers' rule: list_all2_induct)
  case Nil
  then show ?case by simp
next
  case (Cons t ts t' ts')
  from Cons.hyps(1) have ev: "TriggerEvent t = TriggerEvent t'"
    and tg: "targetAlike (TriggerTable t) (TriggerTable t')"
    by (simp_all add: triggerAlike_def)
  show ?case
  proof (cases "TriggerEvent t = DeleteStr")
    case False
    with ev Cons.IH[OF Cons.prems] show ?thesis by simp
  next
    case True
    show ?thesis
    proof (cases "TriggerTable t")
      case (UnresolvedTable n q)
      with tg obtain n' q' where u': "TriggerTable t' = UnresolvedTable n' q'"
        by (cases "TriggerTable t'") simp_all
      with tg UnresolvedTable have "ToLower n = ToLower n'" "ToLower q = ToLower q'" "(q = []) = (q' = [])"
        by (simp_all add: sameIdent_def) (metis ToLower_eq_Nil)
      with True ev UnresolvedTable u' Cons.prems Cons.IH[OF Cons.prems] show ?thesis
        by auto
    next
      case (DeleteFrom x)
      with tg have "\<forall>n' q'. TriggerTable t' \<noteq> UnresolvedTable n' q'" by auto
      with True ev DeleteFrom show ?thesis by (cases "TriggerTable t'") simp_all
    next
      case (Truncate x y)
      with tg have "\<forall>n' q'. TriggerTable t' \<noteq> UnresolvedTable n' q'" by auto
      with True ev Truncate show ?thesis by (cases "TriggerTable t'") simp_all
    next
      case (ResolvedTable x)
      with tg have "\<forall>n' q'. TriggerTable t' \<noteq> UnresolvedTable n' q'" by auto
      with True ev ResolvedTable show ?thesis by (cases "TriggerTable t'") simp_all
    next
      case (OtherNode x)
      with tg have "\<forall>n' q'. TriggerTable t' \<noteq> UnresolvedTable n' q'" by auto
      with True ev OtherNode show ?thesis by (cases "TriggerTable t'") simp_all
    qed
  qed
qed

lemma scanTriggerDatabases_alike:
  "list_all2 (\<lambda>db db'. rel_sum (=) (list_all2 triggerAlike)
                          (loadTriggersFromDb env db) (loadTriggersFromDb env' db')
                        \<and> (DbName db = dbName) = (DbName db' = dbName')) dbs dbs' \<Longrightarrow>
     rel_option sameOutcome
       (scanTriggerDatabases env (DeleteFrom c) tblName dbName dbNameLower dbs)
       (scanTriggerDatabases env' (DeleteFrom c') tblName dbName' dbNameLower dbs')"
proof (induction dbs dbs' rule: list_all2_induct)
  case Nil
  then show ?case by simp
next
  case (Cons db dbs db' dbs')
  from Cons.hyps(1)
  have l: "rel_sum (=) (list_all2 triggerAlike) (loadTriggersFromDb env db) (loadTriggersFromDb env' db')"
    and p: "(DbName db = dbName) = (DbName db' = dbName')"
    by simp_all
  from l show ?case
  proof (cases rule: rel_sumE)
    case (Inl e e')
    then show ?thesis by simp
  next
    case (Inr ts ts')
    from scanTriggers_alike[where c = c and c' = c' and tblName = tblName
        and dbNameLower = dbNameLower, OF Inr(3) p]
    show ?thesis
    proof (cases rule: option.rel_cases)
      case None
      with Inr Cons.IH show ?thesis by simp
    next
      case (Some r r')
      with Inr show ?thesis by simp
    qed
  qed
qed

lemma sameNamePattern_nth:
  assumes "sameNamePattern env env'"
    and "length (AllDatabases env) = length (AllDatabases env')"
    and "i < length (AllDatabases env)" "j < length (AllDatabases env)"
  shows "(DbName (AllDatabases env ! i) = DbName (AllDatabases env ! j)) =
         (DbName (AllDatabases env' ! i) = DbName (AllDatabases env' ! j))"
proof -
  let ?names = "zip (map DbName (AllDatabases env)) (map DbName (AllDatabases env'))"
  from assms(2,3) have i: "(DbName (AllDatabases env ! i), DbName (AllDatabases env' ! i)) \<in> set ?names"
    by (force simp: set_zip)
  from assms(2,4) have j: "(DbName (AllDatabases env ! j), DbName (AllDatabases env' ! j)) \<in> set ?names"
    by (force simp: set_zip)
  from assms(1)
  have "\<forall>p \<in> set ?names. case p of (a, a') \<Rightarrow>
          \<forall>q \<in> set ?names. case q of (b, b') \<Rightarrow> (a = b) = (a' = b')"
    by (simp add: sameNamePattern_def Let_def list_all_iff)
  from bspec[OF this i] have "\<forall>q \<in> set ?names. case q of (b, b') \<Rightarrow>
      (DbName (AllDatabases env ! i) = b) = (DbName (AllDatabases env' ! i) = b')"
    by simp
  from bspec[OF this j] show ?thesis by simp
qed

lemma deleteToTruncate_alike:
  assumes cat: "catalogsAlike env env'" and trg: "triggersAlike env env'"
    and pat: "sameNamePattern env env'"
    and name: "sameIdent (TableName tbl) (TableName tbl')"
    and auto: "hasAutoIncrement (Schema tbl) = hasAutoIncrement (Schema tbl')"
    and trunc: "rel_sum (=) sameIdent (GetTruncatable env (ResolvedTable tbl))
                  (GetTruncatable env' (ResolvedTable tbl'))"
  shows "sameOutcome (deleteToTruncate env (ResolvedTable tbl))
           (deleteToTruncate env' (ResolvedTable tbl'))"
proof -
  let ?dbs = "AllDatabases env" and ?dbs' = "AllDatabases env'"
  define R where "R n n' \<longleftrightarrow> sameIdent n n' \<and>
      (\<forall>i < length ?dbs. (DbName (?dbs ! i) = n) = (DbName (?dbs' ! i) = n'))" for n n'
  define t where "t = ToLower (TableName tbl)"
  from name have t': "ToLower (TableName tbl') = t" by (simp add: t_def sameIdent_def)
  from cat have alike: "list_all2 dbAlike ?dbs ?dbs'" by (simp add: catalogsAlike_def)
  then have len: "length ?dbs = length ?dbs'" by (rule list_all2_lengthD)
  have same: "sameIdent (DbName (?dbs ! i)) (DbName (?dbs' ! i))" if "i < length ?dbs" for i
    using list_all2_nthD[OF alike that] by (simp add: dbAlike_def)
  have R0: "R [] []"
    unfolding R_def using same sameIdent_Nil by (metis sameIdent_refl)
  have Rdb: "R (DbName (?dbs ! i)) (DbName (?dbs' ! i))" if "i < length ?dbs" for i
    unfolding R_def using same[OF that] sameNamePattern_nth[OF pat len _ that] by metis
  have l1: "list_all2 (\<lambda>db db'. dbAlike db db' \<and> R (DbName db) (DbName db')) ?dbs ?dbs'"
    using alike Rdb by (simp add: list_all2_conv_all_nth)
  show ?thesis
  proof (cases "hasAutoIncrement (Schema tbl)")
    case True
    with auto show ?thesis by (simp add: deleteToTruncate_ResolvedTable)
  next
    case False
    with auto have False': "\<not> hasAutoIncrement (Schema tbl')" by simp
    from findDatabase_alike[where R = R and c = "ResolvedTable tbl" and c' = "ResolvedTable tbl'"
        and tblName = t and tblFound = False, OF l1 R0]
    show ?thesis
    proof (cases rule: rel_sumE)
      case (Inl r r')
      with False False' t' show ?thesis
        by (simp add: deleteToTruncate_ResolvedTable t_def)
    next
      case (Inr st st')
      obtain f n where st: "st = (f, n)" by (cases st)
      obtain f' n' where st': "st' = (f', n')" by (cases st')
      from Inr(3) st st' have ff: "f' = f" and Rn: "R n n'" by simp_all
      show ?thesis
      proof (cases f)
        case False
        with Inr st st' ff \<open>\<not> hasAutoIncrement (Schema tbl)\<close> False' t' show ?thesis
          by (simp add: deleteToTruncate_ResolvedTable t_def)
      next
        case True
        from Rn have lower: "ToLower n' = ToLower n" by (simp add: R_def sameIdent_def)
        from trg have "list_all2 (\<lambda>db db'. rel_sum (=) (list_all2 triggerAlike)
                          (loadTriggersFromDb env db) (loadTriggersFromDb env' db')) ?dbs ?dbs'"
          by (simp add: triggersAlike_def)
        with Rn have l2: "list_all2 (\<lambda>db db'. rel_sum (=) (list_all2 triggerAlike)
                          (loadTriggersFromDb env db) (loadTriggersFromDb env' db')
                        \<and> (DbName db = n) = (DbName db' = n')) ?dbs ?dbs'"
          by (simp add: list_all2_conv_all_nth R_def)
        from Rn have "sameIdent (ToLower n) (ToLower n')" by (simp add: R_def sameIdent_def)
        from validateTruncate_alike[OF cat this trunc]
        have v: "sameValidation (validateTruncate env (ToLower n) (ResolvedTable tbl))
                   (validateTruncate env' (ToLower n) (ResolvedTable tbl'))"
          by (simp add: lower)
        from scanTriggerDatabases_alike[where c = "ResolvedTable tbl" and c' = "ResolvedTable tbl'"
            and tblName = t and dbNameLower = "ToLower n", OF l2]
        show ?thesis
        proof (cases rule: option.rel_cases)
          case (Some r r')
          with Inr st st' ff True \<open>\<not> hasAutoIncrement (Schema tbl)\<close> False' t' lower
          show ?thesis
            by (simp add: deleteToTruncate_ResolvedTable t_def)
        next
          case None
          obtain ok e where r: "validateTruncate env (ToLower n) (ResolvedTable tbl) = (ok, e)"
            by (cases "validateTruncate env (ToLower n) (ResolvedTable tbl)")
          obtain ok' e' where r': "validateTruncate env' (ToLower n) (ResolvedTable tbl') = (ok', e')"
            by (cases "validateTruncate env' (ToLower n) (ResolvedTable tbl')")
          from v r r' have "ok' = ok" "rel_option errorAlike e e'"
            by (simp_all add: sameValidation_def)
          with None Inr st st' ff True \<open>\<not> hasAutoIncrement (Schema tbl)\<close> False' t' lower r r' Rn
          show ?thesis
            by (cases ok; cases e; cases e')
               (simp_all add: deleteToTruncate_ResolvedTable t_def R_def)
        qed
      qed
    qed
  qed
qed


section \<open>Claims\<close>

text \<open>
  Each claim is stated in words and proved; a theorem with a hypothesis is followed by an
  instance of it on one of the example catalogs. Where a claim does not hold as it was
  first stated, the statement proved is the amended one, and an input on which the first
  statement fails follows it.
\<close>














text \<open>
  C4, as amended. Let every database list its table names without error. An unconditional
  DELETE on a resolved table is returned as it is, with no error, when the table is listed
  in a database \<open>d\<close> and some database \<open>db\<close>, the triggers of the databases before
  it being loaded without error, holds a trigger that fires on delete and whose unresolved
  table reference names the table in \<open>d\<close> (by its qualifier, or with no qualifier
  when \<open>db\<close> is called as \<open>d\<close> is); and also when such a database \<open>db\<close> holds a
  trigger that fires on delete and whose table reference is not an unresolved table.
  Triggers of any other event never matter: without any hypothesis, the pass returns the
  same with and without them.
\<close>

theorem delete_trigger_blocks_rewrite:
  "((\<forall>x \<in> set (AllDatabases env). listsTables x)
      \<and> d \<in> set (AllDatabases env) \<and> matchingNames (ToLower (TableName tbl)) d \<noteq> []
      \<and> AllDatabases env = before @ db # after \<and> (\<forall>x \<in> set before. loadsTriggers env x)
      \<and> trigger \<in> set (triggersOf env db)
      \<and> triggerTargets (ToLower (TableName tbl)) (DbName d) (DbName db) trigger
     \<longrightarrow> deleteToTruncate env (ResolvedTable tbl) = Inr (DeleteFrom (ResolvedTable tbl)))
   \<and> ((\<forall>x \<in> set (AllDatabases env). listsTables x)
      \<and> AllDatabases env = before @ db # after \<and> (\<forall>x \<in> set before. loadsTriggers env x)
      \<and> trigger \<in> set (triggersOf env db) \<and> triggerUnresolvable trigger
     \<longrightarrow> deleteToTruncate env (ResolvedTable tbl) = Inr (DeleteFrom (ResolvedTable tbl)))
   \<and> deleteToTruncate
        (env\<lparr>loadTriggersFromDb :=
           \<lambda>db. map_sum id (filter (\<lambda>trigger. TriggerEvent trigger = DeleteStr))
                  (loadTriggersFromDb env db)\<rparr>) child
       = deleteToTruncate env child"
proof (intro conjI impI)
  define dp where "dp = DeleteFrom (ResolvedTable tbl)"
  define t where "t = ToLower (TableName tbl)"
  assume a: "(\<forall>x \<in> set (AllDatabases env). listsTables x)
      \<and> d \<in> set (AllDatabases env) \<and> matchingNames (ToLower (TableName tbl)) d \<noteq> []
      \<and> AllDatabases env = before @ db # after \<and> (\<forall>x \<in> set before. loadsTriggers env x)
      \<and> trigger \<in> set (triggersOf env db)
      \<and> triggerTargets (ToLower (TableName tbl)) (DbName d) (DbName db) trigger"
  then have lists: "\<forall>x \<in> set (AllDatabases env). listsTables x"
    and d: "d \<in> set (AllDatabases env)" "matchingNames t d \<noteq> []"
    and dbs: "AllDatabases env = before @ db # after"
    and loads: "\<forall>x \<in> set before. loadsTriggers env x"
    and db: "trigger \<in> set (triggersOf env db)"
    and tr: "triggerTargets t (DbName d) (DbName db) trigger"
    by (auto simp: t_def)
  show "deleteToTruncate env (ResolvedTable tbl) = Inr (DeleteFrom (ResolvedTable tbl))"
  proof (cases "findDatabase dp t (AllDatabases env) (False, [])")
    case (Inl r)
    with findDatabase_no_error[OF lists Inl] show ?thesis
      by (simp add: deleteToTruncate_ResolvedTable dp_def t_def)
  next
    case (Inr st)
    obtain tblFound n where st: "st = (tblFound, n)" by (cases st)
    from findDatabase_result_name[OF Inr[unfolded st] d] have n: "tblFound" "n = DbName d"
      by simp_all
    from tr have "triggerTargets t (DbName d) (DbName db) trigger \<or> triggerUnresolvable trigger"
      by simp
    from scanTriggerDatabases_blocked[OF loads db this, of dp after]
    have "scanTriggerDatabases env dp t (DbName d) (ToLower (DbName d)) (AllDatabases env)
            = Some (Inr dp)"
      by (simp add: dbs)
    with Inr st n show ?thesis
      by (simp add: deleteToTruncate_ResolvedTable dp_def t_def)
  qed
next
  define dp where "dp = DeleteFrom (ResolvedTable tbl)"
  define t where "t = ToLower (TableName tbl)"
  assume a: "(\<forall>x \<in> set (AllDatabases env). listsTables x)
      \<and> AllDatabases env = before @ db # after \<and> (\<forall>x \<in> set before. loadsTriggers env x)
      \<and> trigger \<in> set (triggersOf env db) \<and> triggerUnresolvable trigger"
  then have lists: "\<forall>x \<in> set (AllDatabases env). listsTables x"
    and dbs: "AllDatabases env = before @ db # after"
    and loads: "\<forall>x \<in> set before. loadsTriggers env x"
    and db: "trigger \<in> set (triggersOf env db)"
    and tr: "triggerUnresolvable trigger"
    by auto
  show "deleteToTruncate env (ResolvedTable tbl) = Inr (DeleteFrom (ResolvedTable tbl))"
  proof (cases "findDatabase dp t (AllDatabases env) (False, [])")
    case (Inl r)
    with findDatabase_no_error[OF lists Inl] show ?thesis
      by (simp add: deleteToTruncate_ResolvedTable dp_def t_def)
  next
    case (Inr st)
    obtain tblFound n where st: "st = (tblFound, n)" by (cases st)
    from tr have "triggerTargets t n (DbName db) trigger \<or> triggerUnresolvable trigger"
      by simp
    from scanTriggerDatabases_blocked[OF loads db this, of dp after]
    have "scanTriggerDatabases env dp t n (ToLower n) (AllDatabases env) = Some (Inr dp)"
      by (simp add: dbs)
    with Inr st show ?thesis
      by (simp add: deleteToTruncate_ResolvedTable dp_def t_def)
  qed
next
  show "deleteToTruncate
        (env\<lparr>loadTriggersFromDb :=
           \<lambda>db. map_sum id (filter (\<lambda>trigger. TriggerEvent trigger = DeleteStr))
                  (loadTriggersFromDb env db)\<rparr>) child
       = deleteToTruncate env child"
    by (rule deleteToTruncate_delete_triggers_only)
qed

theorem delete_trigger_blocks_rewrite_witness:
  "deleteToTruncate (triggerEnv [salesDb, shopDb] [(''shop'', Inr [notesInsertTrigger, notesDeleteTrigger])])
       (ResolvedTable notesTable) = Inr (DeleteFrom (ResolvedTable notesTable))
   \<and> deleteToTruncate (triggerEnv [salesDb, shopDb] [(''sales'', Inr [boundDeleteTrigger])])
       (ResolvedTable notesTable) = Inr (DeleteFrom (ResolvedTable notesTable))
   \<and> deleteToTruncate (triggerEnv [salesDb, shopDb] [(''shop'', Inr [notesInsertTrigger])])
       (ResolvedTable notesTable) = Inr (Truncate ''shop'' (ResolvedTable notesTable))"
proof -
  let ?e1 = "triggerEnv [salesDb, shopDb] [(''shop'', Inr [notesInsertTrigger, notesDeleteTrigger])]"
  let ?e2 = "triggerEnv [salesDb, shopDb] [(''sales'', Inr [boundDeleteTrigger])]"
  let ?e3 = "triggerEnv [salesDb, shopDb] [(''shop'', Inr [notesInsertTrigger])]"
  have h1: "(\<forall>x \<in> set (AllDatabases ?e1). listsTables x)
      \<and> shopDb \<in> set (AllDatabases ?e1)
      \<and> matchingNames (ToLower (TableName notesTable)) shopDb \<noteq> []
      \<and> AllDatabases ?e1 = [salesDb] @ shopDb # [] \<and> (\<forall>x \<in> set [salesDb]. loadsTriggers ?e1 x)
      \<and> notesDeleteTrigger \<in> set (triggersOf ?e1 shopDb)
      \<and> triggerTargets (ToLower (TableName notesTable)) (DbName shopDb) (DbName shopDb)
            notesDeleteTrigger"
    by (simp add: example_defs catalog_defs ToLower_def DeleteStr_def)
  have h2: "(\<forall>x \<in> set (AllDatabases ?e2). listsTables x)
      \<and> AllDatabases ?e2 = [] @ salesDb # [shopDb] \<and> (\<forall>x \<in> set []. loadsTriggers ?e2 x)
      \<and> boundDeleteTrigger \<in> set (triggersOf ?e2 salesDb)
      \<and> triggerUnresolvable boundDeleteTrigger"
    by (simp add: example_defs catalog_defs ToLower_def DeleteStr_def)
  have h3: "deleteToTruncate
        (?e3\<lparr>loadTriggersFromDb :=
           \<lambda>db. map_sum id (filter (\<lambda>trigger. TriggerEvent trigger = DeleteStr))
                  (loadTriggersFromDb ?e3 db)\<rparr>) (ResolvedTable notesTable)
       = Inr (Truncate ''shop'' (ResolvedTable notesTable))"
    by (simp add: example_defs pass_defs)
  from h1 delete_trigger_blocks_rewrite[where env = ?e1 and d = shopDb and db = shopDb
      and before = "[salesDb]" and after = "[]"
      and trigger = notesDeleteTrigger and tbl = notesTable]
  have a: "deleteToTruncate ?e1 (ResolvedTable notesTable) = Inr (DeleteFrom (ResolvedTable notesTable))"
    by blast
  from h2 delete_trigger_blocks_rewrite[where env = ?e2 and db = salesDb
      and before = "[]" and after = "[shopDb]"
      and trigger = boundDeleteTrigger and tbl = notesTable]
  have b: "deleteToTruncate ?e2 (ResolvedTable notesTable) = Inr (DeleteFrom (ResolvedTable notesTable))"
    by blast
  from h3 delete_trigger_blocks_rewrite[where env = ?e3 and child = "ResolvedTable notesTable"]
  have c: "deleteToTruncate ?e3 (ResolvedTable notesTable)
      = Inr (Truncate ''shop'' (ResolvedTable notesTable))"
    by simp
  from a b c show ?thesis by simp
qed

text \<open>
  The claim as it was stated fails where a lookup fails before the trigger is reached:
  the table \<open>Notes\<close> of database \<open>shop\<close> has a delete trigger, the triggers of the
  database \<open>sales\<close>, scanned first, cannot be loaded, and the run ends with that error.
\<close>

theorem delete_trigger_counterexample:
  "shopDb \<in> set (AllDatabases (triggerEnv [salesDb, shopDb]
       [(''sales'', Inl (CollaboratorError ''disk'')), (''shop'', Inr [notesDeleteTrigger])]))
   \<and> matchingNames (ToLower (TableName notesTable)) shopDb = [''notes'']
   \<and> loadTriggersFromDb (triggerEnv [salesDb, shopDb]
       [(''sales'', Inl (CollaboratorError ''disk'')), (''shop'', Inr [notesDeleteTrigger])]) shopDb
       = Inr [notesDeleteTrigger]
   \<and> triggerTargets (ToLower (TableName notesTable)) (DbName shopDb) (DbName shopDb)
         notesDeleteTrigger
   \<and> deleteToTruncate (triggerEnv [salesDb, shopDb]
       [(''sales'', Inl (CollaboratorError ''disk'')), (''shop'', Inr [notesDeleteTrigger])])
       (ResolvedTable notesTable) = Inl (CollaboratorError ''disk'')"
  by (simp add: example_defs catalog_defs pass_defs)


text \<open>
  C5. An unconditional DELETE whose child is a resolved table with an auto-increment
  column is returned as it is, with no error, whatever the catalog, the triggers and the
  foreign keys are; the run makes no catalog or trigger lookup at all.
\<close>

theorem auto_increment_never_rewritten:
  "\<exists>col \<in> set (Schema tbl). AutoIncrement col \<Longrightarrow>
     deleteToTruncate env (ResolvedTable tbl) = Inr (DeleteFrom (ResolvedTable tbl))
     \<and> snd (deleteToTruncate_traced env (ResolvedTable tbl)) = []"
  by (simp add: deleteToTruncate_def deleteToTruncate_traced_def hasAutoIncrement_def
      list_ex_iff)

theorem auto_increment_never_rewritten_witness:
  "(\<exists>col \<in> set (Schema countersTable). AutoIncrement col)
   \<and> deleteToTruncate (catalogEnv [brokenDb]) (ResolvedTable countersTable)
       = Inr (DeleteFrom (ResolvedTable countersTable))
   \<and> snd (deleteToTruncate_traced (catalogEnv [brokenDb]) (ResolvedTable countersTable)) = []"
proof -
  have h: "\<exists>col \<in> set (Schema countersTable). AutoIncrement col"
    by (simp add: countersTable_def)
  from auto_increment_never_rewritten[OF h] h show ?thesis by simp
qed










text \<open>
  C8. Whenever a catalog or trigger lookup made during a run of \<open>processTruncate\<close>
  (\<open>GetTableNames\<close>, \<open>GetTableInsensitive\<close>, \<open>GetForeignKeys\<close>, the loading of
  triggers; on the DELETE path and on the TRUNCATE path) returns an error, the run returns
  that error to its caller.
\<close>

theorem lookup_errors_propagated:
  "c \<in> set (snd (processTruncate_traced env n)) \<Longrightarrow> lookupError c = Some e
     \<Longrightarrow> processTruncate env n = Inl e"
proof (cases n)
  case (DeleteFrom child)
  assume "c \<in> set (snd (processTruncate_traced env n))" "lookupError c = Some e"
  with DeleteFrom show ?thesis
    by (simp add: deleteToTruncate_traced_fst deleteToTruncate_traced_error)
next
  case (Truncate dbName child)
  assume a: "c \<in> set (snd (processTruncate_traced env n))" "lookupError c = Some e"
  obtain r calls where v: "validateTruncate_traced env dbName child = (r, calls)"
    by (cases "validateTruncate_traced env dbName child")
  from a Truncate v have "c \<in> set calls"
    by (auto split: prod.splits option.splits)
  from validateTruncate_traced_errorD[OF v this a(2)] v Truncate show ?thesis
    by (simp add: validateTruncate_traced_fst)
qed auto

theorem lookup_errors_propagated_witness:
  "CallGetTableNames ''broken'' (Some (CollaboratorError ''disk''))
     \<in> set (snd (processTruncate_traced (catalogEnv [salesDb, brokenDb])
                   (DeleteFrom (ResolvedTable ordersTable))))
   \<and> lookupError (CallGetTableNames ''broken'' (Some (CollaboratorError ''disk'')))
       = Some (CollaboratorError ''disk'')
   \<and> processTruncate (catalogEnv [salesDb, brokenDb]) (DeleteFrom (ResolvedTable ordersTable))
       = Inl (CollaboratorError ''disk'')"
proof -
  have h1: "CallGetTableNames ''broken'' (Some (CollaboratorError ''disk''))
     \<in> set (snd (processTruncate_traced (catalogEnv [salesDb, brokenDb])
                   (DeleteFrom (ResolvedTable ordersTable))))"
    by (simp add: example_defs pass_defs traced_defs)
  have h2: "lookupError (CallGetTableNames ''broken'' (Some (CollaboratorError ''disk'')))
       = Some (CollaboratorError ''disk'')"
    by simp
  from lookup_errors_propagated[OF h1 h2] h1 h2 show ?thesis by simp
qed








end
